theory Spec2Isabelle
  imports
    Main
    "HOL-Library.AList"
    "HOL-Library.Char_ord"
    "HOL-Library.List_Lexorder"
    "HOL-Library.Product_Lexorder"
    "HOL-Library.Multiset"
    "HOL-Library.Sublist"
begin

section \<open>Regular expressions of the program\<close>

text \<open>
  The program uses two regular expressions, \<^verbatim>\<open>rgx_version\<close> and \<^verbatim>\<open>rgx_ini_parser\<close>.
  Both are sequences of single characters and of repetitions of one character class,
  some of them captured as groups, joined by a top-level alternation in the parser's
  case.  They are embedded as data and run by a backtracking matcher that tries the
  choices in the order Python's \<^verbatim>\<open>re\<close> module does: a greedy repetition tries the longest
  run first, a lazy one the shortest, and an alternation its branches from left to right.
  Strings are lists of characters with code points below 256.
\<close>

datatype atom =
    Chr char                          \<comment> \<open>one literal character\<close>
  | Rep bool nat "char \<Rightarrow> bool"       \<comment> \<open>greedy?, least count, character class\<close>

datatype item =
    Plain atom
  | Cap nat atom                      \<comment> \<open>capturing group number, content\<close>
  | LookNlEnd                         \<comment> \<open>the lookahead \<^verbatim>\<open>(?=\n|$)\<close>\<close>

type_synonym groups = "(nat \<times> string) list"

fun first_some :: "('a \<Rightarrow> 'b option) \<Rightarrow> 'a list \<Rightarrow> 'b option" where
  "first_some f [] = None"
| "first_some f (x # xs) = (case f x of Some y \<Rightarrow> Some y | None \<Rightarrow> first_some f xs)"

definition counts :: "bool \<Rightarrow> nat \<Rightarrow> nat \<Rightarrow> nat list" where
  "counts greedy lo hi = (if greedy then rev [lo..<Suc hi] else [lo..<Suc hi])"

text \<open>The numbers of characters an atom may consume at the head of a string, in the
  order in which the backtracking matcher tries them.\<close>

fun atom_tries :: "atom \<Rightarrow> string \<Rightarrow> nat list" where
  "atom_tries (Chr c) s = (case s of [] \<Rightarrow> [] | x # _ \<Rightarrow> if x = c then [1] else [])"
| "atom_tries (Rep greedy lo cls) s = counts greedy lo (length (takeWhile cls s))"

text \<open>\<open>rmatch items s\<close> matches the items at the head of \<open>s\<close> and returns the length of
  the match together with the captured groups, or \<open>None\<close> when every choice fails.\<close>

fun rmatch :: "item list \<Rightarrow> string \<Rightarrow> (nat \<times> groups) option" where
  "rmatch [] s = Some (0, [])"
| "rmatch (LookNlEnd # its) s =
     (case s of
        [] \<Rightarrow> rmatch its s
      | c # _ \<Rightarrow> if c = CHR 0x0A then rmatch its s else None)"
| "rmatch (Plain a # its) s =
     first_some (\<lambda>k. map_option (\<lambda>(n, g). (k + n, g)) (rmatch its (drop k s)))
       (atom_tries a s)"
| "rmatch (Cap j a # its) s =
     first_some (\<lambda>k. map_option (\<lambda>(n, g). (k + n, (j, take k s) # g)) (rmatch its (drop k s)))
       (atom_tries a s)"

text \<open>\<^verbatim>\<open>m.group(j)\<close>; the program reads a group only where it took part in the match.\<close>

definition group :: "groups \<Rightarrow> nat \<Rightarrow> string" where
  "group g j = (case map_of g j of Some t \<Rightarrow> t | None \<Rightarrow> [])"

definition sp_tab :: "char \<Rightarrow> bool" where       \<comment> \<open>\<^verbatim>\<open>[ \t]\<close>\<close>
  "sp_tab c = (c = CHR '' '' \<or> c = CHR 0x09)"

definition not_nl :: "char \<Rightarrow> bool" where       \<comment> \<open>\<^verbatim>\<open>[^\n]\<close> and \<^verbatim>\<open>.\<close>\<close>
  "not_nl c = (c \<noteq> CHR 0x0A)"

definition is_space :: "char \<Rightarrow> bool" where     \<comment> \<open>\<^verbatim>\<open>\s\<close> on code points below 256\<close>
  "is_space c = (c \<in> set [CHR 0x09, CHR 0x0A, CHR 0x0B, CHR 0x0C, CHR 0x0D, CHR 0x1C,
                           CHR 0x1D, CHR 0x1E, CHR 0x1F, CHR 0x20, CHR 0x85, CHR 0xA0])"

definition not_space :: "char \<Rightarrow> bool" where    \<comment> \<open>\<^verbatim>\<open>[^\s]\<close>\<close>
  "not_space c = (\<not> is_space c)"

definition is_digit :: "char \<Rightarrow> bool" where     \<comment> \<open>\<^verbatim>\<open>\d\<close> on code points below 256\<close>
  "is_digit c = (c \<in> set ''0123456789'')"

section \<open>Versions\<close>

text \<open>\<^verbatim>\<open>rgx_version = re.compile(r'^(\d+)\.(\d+)\.(\d+)(.*)')\<close>, used with \<^verbatim>\<open>match\<close>.\<close>

definition rgx_version :: "item list" where
  "rgx_version =
     [Cap 1 (Rep True 1 is_digit), Plain (Chr (CHR ''.'')),
      Cap 2 (Rep True 1 is_digit), Plain (Chr (CHR ''.'')),
      Cap 3 (Rep True 1 is_digit), Cap 4 (Rep True 0 not_nl)]"

datatype error = RedemptionVersionError

text \<open>A version object.  The class defines \<^verbatim>\<open>__lt__\<close> and \<^verbatim>\<open>__le__\<close> only, so \<^verbatim>\<open>==\<close> between
  two versions is the identity of the objects; \<open>ident\<close> is that identity.\<close>

record RedemptionVersion =
  ident :: nat
  major :: int
  minor :: int
  build :: int
  revision :: string

definition py_int :: "string \<Rightarrow> int" where     \<comment> \<open>\<^verbatim>\<open>int\<close> of a string of decimal digits\<close>
  "py_int ds = foldl (\<lambda>n c. 10 * n + (int (of_char c) - 48)) 0 ds"

text \<open>\<^verbatim>\<open>RedemptionVersion.__init__\<close>; the first argument is the identity of the new object.\<close>

definition RedemptionVersion_init :: "nat \<Rightarrow> string \<Rightarrow> error + RedemptionVersion" where
  "RedemptionVersion_init obj version =
     (case rmatch rgx_version version of
        None \<Rightarrow> Inl RedemptionVersionError
      | Some (n, m) \<Rightarrow>
          Inr \<lparr>ident = obj, major = py_int (group m 1), minor = py_int (group m 2),
               build = py_int (group m 3), revision = group m 4\<rparr>)"

definition part :: "RedemptionVersion \<Rightarrow> int \<times> int \<times> int \<times> string" where
  "part v = (major v, minor v, build v, revision v)"

definition version_lt :: "RedemptionVersion \<Rightarrow> RedemptionVersion \<Rightarrow> bool" where
  "version_lt a b = (part a < part b)"

definition version_le :: "RedemptionVersion \<Rightarrow> RedemptionVersion \<Rightarrow> bool" where
  "version_le a b = (part a \<le> part b)"

text \<open>\<^verbatim>\<open>a >= b\<close>: the class has no \<^verbatim>\<open>__ge__\<close>, so Python evaluates the reflected
  \<^verbatim>\<open>b.__le__(a)\<close>.\<close>

definition version_ge :: "RedemptionVersion \<Rightarrow> RedemptionVersion \<Rightarrow> bool" where
  "version_ge a b = version_le b a"

text \<open>\<^verbatim>\<open>a == b\<close>: the class has no \<^verbatim>\<open>__eq__\<close>, so Python compares the objects' identities.\<close>

definition version_eq :: "RedemptionVersion \<Rightarrow> RedemptionVersion \<Rightarrow> bool" where
  "version_eq a b = (ident a = ident b)"

section \<open>Fragments and the parser\<close>

datatype ConfigKind = Unknown | NewLine | Comment | Section | KeyValue

definition novalue :: string where
  "novalue = []"

record ConfigurationFragment =
  "text" :: string
  kind :: ConfigKind
  value1 :: string
  value2 :: string

definition newline_fragment :: ConfigurationFragment where
  "newline_fragment = \<lparr>text = [CHR 0x0A], kind = NewLine, value1 = novalue, value2 = novalue\<rparr>"

text \<open>The five branches of \<^verbatim>\<open>rgx_ini_parser\<close>, in the order of the alternation:
  \<^verbatim>\<open>(\n)\<close>,
  \<^verbatim>\<open>[ \t]*(#)[^\n]*\<close>,
  \<^verbatim>\<open>[ \t]*\[[ \t]*(.+?)[ \t]*\][ \t]*\<close>,
  \<^verbatim>\<open>[ \t]*([^\s]+)[ \t]*=[ \t]*(.*?)[ \t]*(?=\n|$)\<close> and
  \<^verbatim>\<open>[^\n]+\<close>.\<close>

definition rgx_ini_parser :: "item list list" where
  "rgx_ini_parser =
     [[Cap 1 (Chr (CHR 0x0A))],
      [Plain (Rep True 0 sp_tab), Cap 2 (Chr (CHR ''#'')), Plain (Rep True 0 not_nl)],
      [Plain (Rep True 0 sp_tab), Plain (Chr (CHR ''['')), Plain (Rep True 0 sp_tab),
       Cap 3 (Rep False 1 not_nl), Plain (Rep True 0 sp_tab), Plain (Chr (CHR '']'')),
       Plain (Rep True 0 sp_tab)],
      [Plain (Rep True 0 sp_tab), Cap 4 (Rep True 1 not_space), Plain (Rep True 0 sp_tab),
       Plain (Chr (CHR ''='')), Plain (Rep True 0 sp_tab), Cap 5 (Rep False 0 not_nl),
       Plain (Rep True 0 sp_tab), LookNlEnd],
      [Plain (Rep True 1 not_nl)]]"

text \<open>One match of \<^verbatim>\<open>rgx_ini_parser\<close> at the head of the string.\<close>

definition rgx_ini_match :: "string \<Rightarrow> (nat \<times> groups) option" where
  "rgx_ini_match s = first_some (\<lambda>alt. rmatch alt s) rgx_ini_parser"

text \<open>\<^verbatim>\<open>_to_fragment\<close>: the first argument is \<^verbatim>\<open>m.group(0)\<close>, the second the groups that took
  part (\<^verbatim>\<open>m.start(j) != -1\<close>).\<close>

definition to_fragment :: "string \<Rightarrow> groups \<Rightarrow> ConfigurationFragment" where
  "to_fragment g0 m =
     (if map_of m 1 \<noteq> None then newline_fragment
      else if map_of m 2 \<noteq> None then
        \<lparr>text = g0, kind = Comment, value1 = novalue, value2 = novalue\<rparr>
      else if map_of m 3 \<noteq> None then
        \<lparr>text = g0, kind = Section, value1 = group m 3, value2 = novalue\<rparr>
      else if map_of m 4 \<noteq> None then
        \<lparr>text = g0, kind = KeyValue, value1 = group m 4, value2 = group m 5\<rparr>
      else \<lparr>text = g0, kind = Unknown, value1 = novalue, value2 = novalue\<rparr>)"

subsection \<open>Every match is a non-empty prefix\<close>

fun atom_min :: "atom \<Rightarrow> nat" where
  "atom_min (Chr c) = 1"
| "atom_min (Rep greedy lo cls) = lo"

fun item_min :: "item \<Rightarrow> nat" where
  "item_min (Plain a) = atom_min a"
| "item_min (Cap j a) = atom_min a"
| "item_min LookNlEnd = 0"

lemma first_some_SomeD:
  "first_some f xs = Some y \<Longrightarrow> \<exists>x \<in> set xs. f x = Some y"
  by (induction xs) (auto split: option.splits)

lemma first_some_NoneD:
  "first_some f xs = None \<Longrightarrow> x \<in> set xs \<Longrightarrow> f x = None"
  by (induction xs) (auto split: option.splits)

lemma atom_tries_bounds:
  assumes "k \<in> set (atom_tries a s)"
  shows "atom_min a \<le> k \<and> k \<le> length s"
proof (cases a)
  case (Chr c)
  with assms show ?thesis by (cases s) (auto split: if_splits)
next
  case (Rep greedy lo cls)
  moreover have "length (takeWhile cls s) \<le> length s"
    by (rule length_takeWhile_le)
  ultimately show ?thesis using assms by (auto simp: counts_def split: if_splits)
qed

lemma rmatch_bounds:
  "rmatch its s = Some (n, g) \<Longrightarrow> sum_list (map item_min its) \<le> n \<and> n \<le> length s"
proof (induction its arbitrary: s n g)
  case Nil
  then show ?case by simp
next
  case (Cons it its)
  show ?case
  proof (cases it)
    case (Plain a)
    with Cons.prems obtain k r where k: "k \<in> set (atom_tries a s)"
      and r: "map_option (\<lambda>(n, g). (k + n, g)) (rmatch its (drop k s)) = Some r"
      and nr: "r = (n, g)"
      by (auto dest!: first_some_SomeD)
    from r nr obtain n' g' where rec: "rmatch its (drop k s) = Some (n', g')" and n: "n = k + n'"
      by auto
    from Cons.IH [OF rec] atom_tries_bounds [OF k] n Plain show ?thesis by auto
  next
    case (Cap j a)
    with Cons.prems obtain k r where k: "k \<in> set (atom_tries a s)"
      and r: "map_option (\<lambda>(n, g). (k + n, (j, take k s) # g)) (rmatch its (drop k s)) = Some r"
      and nr: "r = (n, g)"
      by (auto dest!: first_some_SomeD)
    from r nr obtain n' g' where rec: "rmatch its (drop k s) = Some (n', g')" and n: "n = k + n'"
      by auto
    from Cons.IH [OF rec] atom_tries_bounds [OF k] n Cap show ?thesis by auto
  next
    case LookNlEnd
    with Cons.prems have "rmatch its s = Some (n, g)"
      by (auto split: list.splits if_splits)
    from Cons.IH [OF this] LookNlEnd show ?thesis by simp
  qed
qed

lemma rgx_ini_match_bounds:
  assumes "rgx_ini_match s = Some (n, g)"
  shows "0 < n \<and> n \<le> length s"
proof -
  from assms obtain alt where "alt \<in> set rgx_ini_parser" and m: "rmatch alt s = Some (n, g)"
    unfolding rgx_ini_match_def by (auto dest!: first_some_SomeD)
  then have "0 < sum_list (map item_min alt)"
    by (auto simp: rgx_ini_parser_def)
  with rmatch_bounds [OF m] show ?thesis by simp
qed

text \<open>\<^verbatim>\<open>parse_configuration\<close>: \<^verbatim>\<open>finditer\<close> scans the content from left to right; where the
  expression matches, the match is turned into a fragment and the scan goes on behind it,
  and where it does not, the scan moves on by one character.\<close>

function parse_configuration :: "string \<Rightarrow> ConfigurationFragment list" where
  "parse_configuration [] = []"
| "parse_configuration (c # cs) =
     (case rgx_ini_match (c # cs) of
        None \<Rightarrow> parse_configuration cs
      | Some (n, m) \<Rightarrow> to_fragment (take n (c # cs)) m # parse_configuration (drop n (c # cs)))"
  by pat_completeness auto
termination parse_configuration
proof (relation "measure length")
  fix c cs x n m
  assume "rgx_ini_match (c # cs) = Some x" and "(n, m) = x"
  then have "rgx_ini_match (c # cs) = Some (n, m)" by simp
  from rgx_ini_match_bounds [OF this]
  show "(drop n (c # cs), c # cs) \<in> measure length" by simp
qed simp_all

section \<open>Migration descriptions\<close>

text \<open>Python dictionaries are association lists of their items, in insertion order;
  \<open>map_of\<close> is \<^verbatim>\<open>dict.get\<close>.  \<open>dict_extend d k vs\<close> is
  \<^verbatim>\<open>d.setdefault(k, []).extend(vs)\<close>, and \<open>AList.update\<close> is the assignment \<^verbatim>\<open>d[k] = v\<close>.\<close>

definition dict_extend :: "('k \<times> 'v list) list \<Rightarrow> 'k \<Rightarrow> 'v list \<Rightarrow> ('k \<times> 'v list) list" where
  "dict_extend d k vs =
     (case map_of d k of
        None \<Rightarrow> d @ [(k, vs)]
      | Some old \<Rightarrow> AList.update k (old @ vs) d)"

text \<open>A key-level order is \<^verbatim>\<open>RemoveItem()\<close> or \<^verbatim>\<open>UpdateItem(section, key, values)\<close>, each
  field of the latter optional.\<close>

datatype MigrationKeyOrderType =
    RemoveItem
  | UpdateItem "string option" "string option" "(string \<times> string) list option"

text \<open>\<^verbatim>\<open>UpdateItem.__call__\<close>; the first three arguments are the fields of \<^verbatim>\<open>self\<close>.\<close>

definition UpdateItem_call ::
  "string option \<Rightarrow> string option \<Rightarrow> (string \<times> string) list option \<Rightarrow>
   string \<Rightarrow> string \<Rightarrow> string \<Rightarrow> string \<times> string \<times> string" where
  "UpdateItem_call self_section self_key self_values sect k v =
     (let sect = (case self_section of Some s \<Rightarrow> s | None \<Rightarrow> sect);
          k = (case self_key of Some k' \<Rightarrow> k' | None \<Rightarrow> k);
          v = (case self_values of
                 Some d \<Rightarrow> (case map_of d v of Some v' \<Rightarrow> v' | None \<Rightarrow> v)
               | None \<Rightarrow> v)
      in (sect, k, v))"

type_synonym key_orders = "(string \<times> MigrationKeyOrderType) list"

text \<open>A section-level order is \<^verbatim>\<open>RemoveItem()\<close> (here \<open>RemoveSection\<close>), \<^verbatim>\<open>MoveSection(name)\<close>,
  a dictionary of key-level orders, or an iterable of \<^verbatim>\<open>MoveSection\<close>s and dictionaries.\<close>

datatype MigrationStep =
    StepMoveSection string
  | StepKeyOrders key_orders

datatype MigrationSectionOrderType =
    RemoveSection
  | MoveSection string
  | KeyOrders key_orders
  | OrderList "MigrationStep list"

type_synonym MigrationDescType = "(string \<times> MigrationSectionOrderType) list"

section \<open>Version gate\<close>

text \<open>\<^verbatim>\<open>migration_filter\<close>: \<^verbatim>\<open>sorted\<close> is a stable sort by the versions' \<^verbatim>\<open>__lt__\<close>, that is by
  \<open>part\<close>; the loop returns the entries from the first one that the previous version is not
  \<^verbatim>\<open>>=\<close> to.\<close>

fun migration_filter_loop ::
  "RedemptionVersion \<Rightarrow> (RedemptionVersion \<times> 'd) list \<Rightarrow> (RedemptionVersion \<times> 'd) list" where
  "migration_filter_loop previous_version [] = []"
| "migration_filter_loop previous_version (t # ts) =
     (if version_ge previous_version (fst t) then migration_filter_loop previous_version ts
      else t # ts)"

definition migration_filter ::
  "(RedemptionVersion \<times> 'd) list \<Rightarrow> RedemptionVersion \<Rightarrow> (RedemptionVersion \<times> 'd) list" where
  "migration_filter migration_defs previous_version =
     migration_filter_loop previous_version (sort_key (\<lambda>t. part (fst t)) migration_defs)"

section \<open>Rule engine\<close>

record ActionState =
  "section" :: string
  original_section :: string
  migration_key_desc :: "key_orders option"
  renamed_sections :: "(string \<times> string) list"
  renamed_keys :: "(string \<times> string \<times> string \<times> string) list"
  moved_keys :: "(string \<times> string \<times> string \<times> string \<times> string) list"
  removed_sections :: "string list"
  removed_keys :: "(string \<times> string) list"

definition initial_actions :: ActionState where
  "initial_actions =
     \<lparr>section = [], original_section = [], migration_key_desc = None,
      renamed_sections = [], renamed_keys = [], moved_keys = [],
      removed_sections = [], removed_keys = []\<rparr>"

text \<open>The branch of the loop body for a \<open>KeyValue\<close> fragment.  A dictionary is true when
  it is not empty.\<close>

definition on_key_value :: "ConfigurationFragment \<Rightarrow> ActionState \<Rightarrow> ActionState" where
  "on_key_value fragment st =
     (case migration_key_desc st of
        None \<Rightarrow> st
      | Some d \<Rightarrow>
          if d = [] then st
          else (case map_of d (value1 fragment) of
                  None \<Rightarrow> st
                | Some RemoveItem \<Rightarrow>
                    st\<lparr>removed_keys := removed_keys st @ [(section st, value1 fragment)]\<rparr>
                | Some (UpdateItem us uk uv) \<Rightarrow>
                    (case UpdateItem_call us uk uv (section st) (value1 fragment) (value2 fragment) of
                       (t0, t1, t2) \<Rightarrow>
                         if t0 = section st
                         then st\<lparr>renamed_keys := renamed_keys st @
                                  [(original_section st, value1 fragment, t1, t2)]\<rparr>
                         else st\<lparr>moved_keys := moved_keys st @
                                  [(original_section st, value1 fragment, t0, t1, t2)]\<rparr>)))"

text \<open>The inner loop over an iterable order.\<close>

fun order_steps :: "MigrationStep list \<Rightarrow> ActionState \<Rightarrow> ActionState" where
  "order_steps [] st = st"
| "order_steps (StepMoveSection name # orders) st =
     order_steps orders
       (st\<lparr>renamed_sections := renamed_sections st @ [(section st, name)], section := name\<rparr>)"
| "order_steps (StepKeyOrders d # orders) st =
     order_steps orders (st\<lparr>migration_key_desc := Some d\<rparr>)"

text \<open>The branch of the loop body for a \<open>Section\<close> fragment.\<close>

definition on_section ::
  "MigrationDescType \<Rightarrow> ConfigurationFragment \<Rightarrow> ActionState \<Rightarrow> ActionState" where
  "on_section migration_def fragment st =
     (let st = st\<lparr>migration_key_desc := None, section := value1 fragment,
                  original_section := value1 fragment\<rparr>
      in case map_of migration_def (section st) of
           None \<Rightarrow> st
         | Some RemoveSection \<Rightarrow> st\<lparr>removed_sections := removed_sections st @ [section st]\<rparr>
         | Some (MoveSection name) \<Rightarrow>
             st\<lparr>renamed_sections := renamed_sections st @ [(section st, name)]\<rparr>
         | Some (KeyOrders d) \<Rightarrow> st\<lparr>migration_key_desc := Some d\<rparr>
         | Some (OrderList orders) \<Rightarrow> order_steps orders st)"

definition actions_step ::
  "MigrationDescType \<Rightarrow> ConfigurationFragment \<Rightarrow> ActionState \<Rightarrow> ActionState" where
  "actions_step migration_def fragment st =
     (if kind fragment = KeyValue then on_key_value fragment st
      else if kind fragment = Section then on_section migration_def fragment st
      else st)"

text \<open>The state of the scan after the given fragments.\<close>

definition actions_scan :: "MigrationDescType \<Rightarrow> ConfigurationFragment list \<Rightarrow> ActionState" where
  "actions_scan migration_def fragments = fold (actions_step migration_def) fragments initial_actions"

definition action_lists ::
  "ActionState \<Rightarrow>
   (string \<times> string) list \<times> (string \<times> string \<times> string \<times> string) list \<times>
   (string \<times> string \<times> string \<times> string \<times> string) list \<times> string list \<times> (string \<times> string) list" where
  "action_lists st =
     (renamed_sections st, renamed_keys st, moved_keys st, removed_sections st, removed_keys st)"

definition migration_def_to_actions ::
  "ConfigurationFragment list \<Rightarrow> MigrationDescType \<Rightarrow>
   (string \<times> string) list \<times> (string \<times> string \<times> string \<times> string) list \<times>
   (string \<times> string \<times> string \<times> string \<times> string) list \<times> string list \<times> (string \<times> string) list" where
  "migration_def_to_actions fragments migration_def =
     action_lists (actions_scan migration_def fragments)"

section \<open>Section spans\<close>

type_synonym span = "nat \<times> nat"

type_synonym section_spans = "(string \<times> span list) list"

text \<open>The loop body of \<^verbatim>\<open>fragments_to_spans_of_sections\<close> over the state \<^verbatim>\<open>(start, section,
  section_spans)\<close>.  Indices are natural numbers: Python's test \<^verbatim>\<open>start < i-1\<close> on integers
  is \<open>start + 1 < i\<close>, and where it holds \<^verbatim>\<open>i-1\<close> is not negative.\<close>

fun spans_step ::
  "nat \<times> ConfigurationFragment \<Rightarrow> nat \<times> string \<times> section_spans \<Rightarrow> nat \<times> string \<times> section_spans" where
  "spans_step (i, fragment) (start, sect, spans) =
     (if kind fragment = Section
      then (i, value1 fragment,
            if start + 1 < i then dict_extend spans sect [(start, i - 1)] else spans)
      else (start, sect, spans))"

text \<open>After the loop \<^verbatim>\<open>i\<close> is the last index (0 for the empty sequence).\<close>

definition fragments_to_spans_of_sections :: "ConfigurationFragment list \<Rightarrow> section_spans" where
  "fragments_to_spans_of_sections fragments =
     (case fold spans_step (enumerate 0 fragments) (0, [], []) of
        (start, sect, spans) \<Rightarrow>
          let i = length fragments - 1
          in if start + 1 < i then dict_extend spans sect [(start, i - 1)] else spans)"

text \<open>\<^verbatim>\<open>section_spans.get(name, ())\<close>.\<close>

definition spans_of :: "section_spans \<Rightarrow> string \<Rightarrow> span list" where
  "spans_of spans name = (case map_of spans name of Some l \<Rightarrow> l | None \<Rightarrow> [])"

definition iter_from_spans :: "span list \<Rightarrow> nat list" where
  "iter_from_spans spans = concat (map (\<lambda>(a, b). [a..<b]) spans)"

section \<open>Rewriter\<close>

definition iter_key_fragment ::
  "ConfigurationFragment list \<Rightarrow> section_spans \<Rightarrow> string \<Rightarrow> string \<Rightarrow>
   (nat \<times> ConfigurationFragment) list" where
  "iter_key_fragment fragments spans section_name key_name =
     map (\<lambda>i. (i, fragments ! i))
       (filter (\<lambda>i. \<not> (kind (fragments ! i) \<noteq> KeyValue \<or> key_name \<noteq> value1 (fragments ! i)))
          (iter_from_spans (spans_of spans section_name)))"

definition comment_out :: "ConfigurationFragment \<Rightarrow> ConfigurationFragment" where
  "comment_out fragment =
     \<lparr>text = CHR ''#'' # text fragment, kind = Comment, value1 = novalue, value2 = novalue\<rparr>"

definition key_value_fragment :: "string \<Rightarrow> string \<Rightarrow> ConfigurationFragment" where
  "key_value_fragment new_key new_value =
     \<lparr>text = new_key @ ''='' @ new_value, kind = KeyValue, value1 = new_key, value2 = new_value\<rparr>"

definition section_fragment :: "string \<Rightarrow> ConfigurationFragment" where
  "section_fragment name =
     \<lparr>text = ''['' @ name @ '']'', kind = Section, value1 = name, value2 = novalue\<rparr>"

type_synonym registration = "nat \<times> ConfigurationFragment list"

text \<open>The assignments \<^verbatim>\<open>reinject_fragments[i] = ...\<close> that \<^verbatim>\<open>migrate\<close> performs, in the order
  of execution: one list for each of its four loops.\<close>

definition renamed_keys_registrations ::
  "ConfigurationFragment list \<Rightarrow> section_spans \<Rightarrow>
   (string \<times> string \<times> string \<times> string) list \<Rightarrow> registration list" where
  "renamed_keys_registrations fragments spans rk =
     concat (map (\<lambda>(sect, old_key, new_key, new_value).
                    map (\<lambda>(i, fragment).
                           (i, [comment_out fragment, newline_fragment,
                                key_value_fragment new_key new_value]))
                      (iter_key_fragment fragments spans sect old_key))
               rk)"

definition removed_sections_registrations ::
  "ConfigurationFragment list \<Rightarrow> section_spans \<Rightarrow> string list \<Rightarrow> registration list" where
  "removed_sections_registrations fragments spans rms =
     concat (map (\<lambda>sect.
                    map (\<lambda>i. (i, [comment_out (fragments ! i)]))
                      (filter (\<lambda>i. kind (fragments ! i) \<in> {KeyValue, Section})
                         (iter_from_spans (spans_of spans sect))))
               rms)"

definition commented_keys_registrations ::
  "ConfigurationFragment list \<Rightarrow> section_spans \<Rightarrow> (string \<times> string) list \<Rightarrow> registration list" where
  "commented_keys_registrations fragments spans ts =
     concat (map (\<lambda>(sect, k).
                    map (\<lambda>(i, fragment). (i, [comment_out fragment]))
                      (iter_key_fragment fragments spans sect k))
               ts)"

definition renamed_sections_registrations ::
  "ConfigurationFragment list \<Rightarrow> section_spans \<Rightarrow> (string \<times> string) list \<Rightarrow> registration list" where
  "renamed_sections_registrations fragments spans rs =
     concat (map (\<lambda>(old_section, new_section).
                    map (\<lambda>(istart, _).
                           (istart, [comment_out (fragments ! istart), newline_fragment,
                                     section_fragment new_section]))
                      (spans_of spans old_section))
               rs)"

text \<open>\<^verbatim>\<open>itertools.chain(removed_keys, moved_keys)\<close>, of which the loop reads \<^verbatim>\<open>t[0]\<close> and
  \<^verbatim>\<open>t[1]\<close>.\<close>

definition chain_removed_moved ::
  "(string \<times> string) list \<Rightarrow> (string \<times> string \<times> string \<times> string \<times> string) list \<Rightarrow>
   (string \<times> string) list" where
  "chain_removed_moved rmk mk = rmk @ map (\<lambda>(old_section, old_key, _). (old_section, old_key)) mk"

definition registrations ::
  "ConfigurationFragment list \<Rightarrow> section_spans \<Rightarrow>
   (string \<times> string) list \<Rightarrow> (string \<times> string \<times> string \<times> string) list \<Rightarrow>
   (string \<times> string \<times> string \<times> string \<times> string) list \<Rightarrow> string list \<Rightarrow> (string \<times> string) list \<Rightarrow>
   registration list" where
  "registrations fragments spans rs rk mk rms rmk =
     renamed_keys_registrations fragments spans rk @
     removed_sections_registrations fragments spans rms @
     commented_keys_registrations fragments spans (chain_removed_moved rmk mk) @
     renamed_sections_registrations fragments spans rs"

text \<open>The dictionary \<^verbatim>\<open>reinject_fragments\<close> after the assignments.\<close>

definition reinject_fragments :: "registration list \<Rightarrow> nat \<Rightarrow> ConfigurationFragment list option" where
  "reinject_fragments regs = fold (\<lambda>(i, r) d. d(i \<mapsto> r)) regs Map.empty"

type_synonym added = "(string \<times> ConfigurationFragment list) list"

text \<open>The dictionary \<^verbatim>\<open>added_keys\<close>: one trio for every fragment that a moved key matches.\<close>

definition added_keys_of ::
  "ConfigurationFragment list \<Rightarrow> section_spans \<Rightarrow>
   (string \<times> string \<times> string \<times> string \<times> string) list \<Rightarrow> added" where
  "added_keys_of fragments spans mk =
     fold (\<lambda>(old_section, old_key, new_section, new_key, new_value) added_keys.
             fold (\<lambda>_ added_keys.
                     dict_extend added_keys new_section
                       [newline_fragment, key_value_fragment new_key new_value, newline_fragment])
               (iter_key_fragment fragments spans old_section old_key) added_keys)
       mk []"

text \<open>The body of the forward pass over the state \<^verbatim>\<open>(result_fragments, added_keys)\<close>.  A
  string is true when it is not empty, and so is a list.\<close>

fun insert_step ::
  "(nat \<Rightarrow> ConfigurationFragment list option) \<Rightarrow> nat \<times> ConfigurationFragment \<Rightarrow>
   ConfigurationFragment list \<times> added \<Rightarrow> ConfigurationFragment list \<times> added" where
  "insert_step reinject (i, fragment) (result_fragments, added_keys) =
     (let added_fragments = (case reinject i of Some r \<Rightarrow> r | None \<Rightarrow> [fragment]);
          sect = map_option value1 (find (\<lambda>x. kind x = Section) added_fragments);
          result_fragments = result_fragments @ added_fragments
      in case sect of
           None \<Rightarrow> (result_fragments, added_keys)
         | Some name \<Rightarrow>
             if name = [] then (result_fragments, added_keys)
             else (case map_of added_keys name of
                     None \<Rightarrow> (result_fragments, added_keys)
                   | Some k \<Rightarrow>
                       if k = [] then (result_fragments, added_keys)
                       else (result_fragments @ k, AList.update name [] added_keys)))"

text \<open>The last loop: the sections that are still to be added.\<close>

definition new_sections :: "added \<Rightarrow> ConfigurationFragment list" where
  "new_sections added_keys =
     concat (map (\<lambda>(sect, keys).
                    if keys \<noteq> [] then [newline_fragment, section_fragment sect] @ keys else [])
               added_keys)"

definition migrate ::
  "ConfigurationFragment list \<Rightarrow> MigrationDescType \<Rightarrow> bool \<times> ConfigurationFragment list" where
  "migrate fragments migration_def =
     (case migration_def_to_actions fragments migration_def of
        (rs, rk, mk, rms, rmk) \<Rightarrow>
          if \<not> (rs \<noteq> [] \<or> rk \<noteq> [] \<or> mk \<noteq> [] \<or> rms \<noteq> [] \<or> rmk \<noteq> [])
          then (False, fragments)
          else
            (let spans = fragments_to_spans_of_sections fragments;
                 reinject = reinject_fragments (registrations fragments spans rs rk mk rms rmk);
                 added_keys = added_keys_of fragments spans mk
             in case fold (insert_step reinject) (enumerate 0 fragments) ([], added_keys) of
                  (result_fragments, added_keys) \<Rightarrow>
                    (True, result_fragments @ new_sections added_keys)))"

subsection \<open>Round trip of the parser\<close>

fun cap_ids :: "item list \<Rightarrow> nat list" where
  "cap_ids [] = []"
| "cap_ids (Cap j a # its) = j # cap_ids its"
| "cap_ids (_ # its) = cap_ids its"

lemma rmatch_groups:
  "rmatch its s = Some (n, g) \<Longrightarrow> map fst g = cap_ids its"
proof (induction its arbitrary: s n g)
  case Nil
  then show ?case by simp
next
  case (Cons it its)
  show ?case
  proof (cases it)
    case (Plain a)
    with Cons.prems obtain k n' g' where "rmatch its (drop k s) = Some (n', g')" and "g = g'"
      by (auto dest!: first_some_SomeD)
    with Cons.IH Plain show ?thesis by auto
  next
    case (Cap j a)
    with Cons.prems obtain k n' g' where "rmatch its (drop k s) = Some (n', g')"
      and "g = (j, take k s) # g'"
      by (auto dest!: first_some_SomeD)
    with Cons.IH Cap show ?thesis by auto
  next
    case LookNlEnd
    with Cons.prems have "rmatch its s = Some (n, g)"
      by (auto split: list.splits if_splits)
    with Cons.IH LookNlEnd show ?thesis by auto
  qed
qed

lemma first_some_not_None:
  "x \<in> set xs \<Longrightarrow> f x \<noteq> None \<Longrightarrow> first_some f xs \<noteq> None"
  by (induction xs) (auto split: option.splits)

text \<open>At every position before the end some branch matches: the first one at a line
  feed, the last one anywhere else.  So the scan never skips a character.\<close>

lemma rgx_ini_match_total: "rgx_ini_match (c # cs) \<noteq> None"
proof (cases "c = CHR 0x0A")
  case True
  have "rmatch [Cap 1 (Chr (CHR 0x0A))] (c # cs) \<noteq> None"
    using True by simp
  then show ?thesis
    unfolding rgx_ini_match_def
    by (intro first_some_not_None [where x = "[Cap 1 (Chr (CHR 0x0A))]"])
       (simp_all add: rgx_ini_parser_def)
next
  case False
  define L where "L = length (takeWhile not_nl cs)"
  have tw: "length (takeWhile not_nl (c # cs)) = Suc L"
    using False by (simp add: not_nl_def L_def)
  have "rmatch [Plain (Rep True 1 not_nl)] (c # cs) \<noteq> None"
    unfolding rmatch.simps atom_tries.simps tw counts_def
    by (intro first_some_not_None [where x = "Suc L"]) simp_all
  then show ?thesis
    unfolding rgx_ini_match_def
    by (intro first_some_not_None [where x = "[Plain (Rep True 1 not_nl)]"])
       (simp_all add: rgx_ini_parser_def)
qed

text \<open>Group 1 takes part in the first branch only, whose match is the line feed: the
  shared \<open>newline_fragment\<close> carries the matched text.\<close>

lemma newline_match:
  assumes "rgx_ini_match s = Some (n, m)" and "map_of m 1 \<noteq> None"
  shows "take n s = [CHR 0x0A]"
proof -
  from assms(1) obtain alt where alt: "alt \<in> set rgx_ini_parser" and m: "rmatch alt s = Some (n, m)"
    unfolding rgx_ini_match_def by (auto dest!: first_some_SomeD)
  from assms(2) have "1 \<in> set (map fst m)"
    by (metis map_of_eq_None_iff set_map)
  with rmatch_groups [OF m] have one: "1 \<in> set (cap_ids alt)" by simp
  with alt have "alt = [Cap 1 (Chr (CHR 0x0A))]"
    by (auto simp: rgx_ini_parser_def)
  with m show ?thesis
    by (cases s) (auto split: if_splits)
qed

lemma text_to_fragment:
  assumes "rgx_ini_match s = Some (n, m)"
  shows "text (to_fragment (take n s) m) = take n s"
  using newline_match [OF assms]
  by (auto simp: to_fragment_def newline_fragment_def)

text \<open>
  Claim C1 (round-trip identity of the parser).  For every input string, the texts of
  the fragments that \<open>parse_configuration\<close> returns, concatenated in order, are the
  input string: every character of the input belongs to exactly one fragment.
\<close>

theorem parse_configuration_round_trip:
  "concat (map text (parse_configuration content)) = content"
proof (induction content rule: parse_configuration.induct)
  case 1
  show ?case by simp
next
  case (2 c cs)
  from rgx_ini_match_total [of c cs] obtain n m where m: "rgx_ini_match (c # cs) = Some (n, m)"
    by auto
  have "concat (map text (parse_configuration (c # cs)))
      = take n (c # cs) @ concat (map text (parse_configuration (drop n (c # cs))))"
    using m text_to_fragment [OF m] by simp
  also have "\<dots> = take n (c # cs) @ drop n (c # cs)"
    using "2.IH"(2) [OF m refl] by simp
  finally show ?case by simp
qed

section \<open>Version comparison\<close>

lemmas version_eval = RedemptionVersion_init_def rgx_version_def is_digit_def not_nl_def
  counts_def group_def py_int_def

lemma init_9_1_39:
  "RedemptionVersion_init obj ''9.1.39'' =
     Inr \<lparr>ident = obj, major = 9, minor = 1, build = 39, revision = []\<rparr>"
  by (simp add: version_eval)

lemma init_9_1_71:
  "RedemptionVersion_init obj ''9.1.71'' =
     Inr \<lparr>ident = obj, major = 9, minor = 1, build = 71, revision = []\<rparr>"
  by (simp add: version_eval)

lemma init_9_1_76:
  "RedemptionVersion_init obj ''9.1.76'' =
     Inr \<lparr>ident = obj, major = 9, minor = 1, build = 76, revision = []\<rparr>"
  by (simp add: version_eval)

lemma init_9_1:
  "RedemptionVersion_init obj ''9.1'' = Inl RedemptionVersionError"
  by (simp add: version_eval)

text \<open>
  Claim C9, as the code has it.  The versions parsed from 9.1.39, 9.1.71 and 9.1.76 are
  in strictly ascending order.  A version parsed from 9.1.39 and one parsed from 9.1.39
  again have the same parts, so each is \<^verbatim>\<open><=\<close> the other and neither is \<^verbatim>\<open><\<close> the other;
  \<^verbatim>\<open>==\<close> holds between them exactly when they are one object.  Parsing 9.1 raises
  \<open>RedemptionVersionError\<close>.  (The objects' identities \<open>o1\<close> to \<open>o5\<close> are arbitrary.)
\<close>

theorem version_comparison:
  "\<exists>a b c a'.
     RedemptionVersion_init o1 ''9.1.39'' = Inr a \<and>
     RedemptionVersion_init o2 ''9.1.71'' = Inr b \<and>
     RedemptionVersion_init o3 ''9.1.76'' = Inr c \<and>
     RedemptionVersion_init o4 ''9.1.39'' = Inr a' \<and>
     version_lt a b \<and> version_lt b c \<and>
     part a = part a' \<and> version_le a a' \<and> version_le a' a \<and>
     \<not> version_lt a a' \<and> \<not> version_lt a' a \<and>
     version_eq a a' = (o1 = o4) \<and>
     RedemptionVersion_init o5 ''9.1'' = Inl RedemptionVersionError"
  by (simp add: init_9_1_39 init_9_1_71 init_9_1_76 init_9_1 version_lt_def version_le_def
      version_eq_def part_def)

text \<open>
  Claim C9 as stated fails for \<^verbatim>\<open>==\<close>: the class defines no equality, so two versions
  parsed separately from 9.1.39 are two objects and \<^verbatim>\<open>==\<close> between them is false.
\<close>

theorem version_equality_counterexample:
  "RedemptionVersion_init 0 ''9.1.39'' =
     Inr \<lparr>ident = 0, major = 9, minor = 1, build = 39, revision = []\<rparr> \<and>
   RedemptionVersion_init 1 ''9.1.39'' =
     Inr \<lparr>ident = 1, major = 9, minor = 1, build = 39, revision = []\<rparr> \<and>
   \<not> version_eq \<lparr>ident = 0, major = 9, minor = 1, build = 39, revision = []\<rparr>
                 \<lparr>ident = 1, major = 9, minor = 1, build = 39, revision = []\<rparr>"
  by (simp add: init_9_1_39 version_eq_def)

section \<open>The version gate selects the newer entries\<close>

lemma migration_filter_loop_sorted:
  "sorted (map (\<lambda>t. part (fst t)) ts) \<Longrightarrow>
   migration_filter_loop p ts = filter (\<lambda>t. version_lt p (fst t)) ts"
proof (induction ts)
  case Nil
  then show ?case by simp
next
  case (Cons t ts)
  show ?case
  proof (cases "version_ge p (fst t)")
    case True
    with Cons show ?thesis
      by (auto simp: version_ge_def version_le_def version_lt_def)
  next
    case False
    then have lt: "part p < part (fst t)"
      by (simp add: version_ge_def version_le_def)
    have "\<forall>u \<in> set ts. part p < part (fst u)"
      using Cons.prems lt by auto
    then have "filter (\<lambda>t. version_lt p (fst t)) ts = ts"
      by (simp add: version_lt_def)
    with False lt show ?thesis by (simp add: version_lt_def)
  qed
qed

text \<open>
  Claim C7 (version gate).  For every catalog and every previous version,
  \<open>migration_filter\<close> returns the entries whose version is strictly greater than the
  previous version and no others (as a list: those entries of the stably sorted catalog;
  as a multiset: those entries of the catalog), in ascending order of version; no
  returned entry is \<^verbatim>\<open><=\<close> the previous version; and the result is empty when the previous
  version is \<^verbatim>\<open>>=\<close> every version of the catalog.
\<close>

theorem migration_filter_gate:
  "migration_filter defs p =
     filter (\<lambda>t. version_lt p (fst t)) (sort_key (\<lambda>t. part (fst t)) defs)
   \<and> mset (migration_filter defs p) = filter_mset (\<lambda>t. version_lt p (fst t)) (mset defs)
   \<and> sorted_wrt (\<lambda>s t. version_le (fst s) (fst t)) (migration_filter defs p)
   \<and> (\<forall>t \<in> set (migration_filter defs p). \<not> version_le (fst t) p)
   \<and> ((\<forall>t \<in> set defs. version_ge p (fst t)) \<longrightarrow> migration_filter defs p = [])"
proof -
  let ?k = "\<lambda>t. part (fst t)"
  have eq: "migration_filter defs p = filter (\<lambda>t. version_lt p (fst t)) (sort_key ?k defs)"
    unfolding migration_filter_def by (rule migration_filter_loop_sorted) simp
  have ms: "mset (migration_filter defs p) = filter_mset (\<lambda>t. version_lt p (fst t)) (mset defs)"
    by (simp add: eq)
  have "sorted (map ?k (filter (\<lambda>t. version_lt p (fst t)) (sort_key ?k defs)))"
    by (rule sorted_filter) simp
  then have so: "sorted_wrt (\<lambda>s t. version_le (fst s) (fst t)) (migration_filter defs p)"
    by (simp add: eq sorted_map version_le_def)
  have ex: "\<forall>t \<in> set (migration_filter defs p). \<not> version_le (fst t) p"
    by (auto simp: eq version_lt_def version_le_def)
  have em: "(\<forall>t \<in> set defs. version_ge p (fst t)) \<longrightarrow> migration_filter defs p = []"
    by (auto simp: eq version_lt_def version_ge_def version_le_def filter_empty_conv)
  from eq ms so ex em show ?thesis by blast
qed

text \<open>The catalog of the three versions 9.1.71, 9.1.39 and 9.1.76 (in this order, with the
  descriptions numbered): from 9.1.50 the gate selects 9.1.71 and 9.1.76, in this order,
  and from 9.1.76 it selects nothing.\<close>

theorem migration_filter_gate_witness:
  "migration_filter
     [(\<lparr>ident = 1, major = 9, minor = 1, build = 71, revision = []\<rparr>, 2::nat),
      (\<lparr>ident = 0, major = 9, minor = 1, build = 39, revision = []\<rparr>, 1),
      (\<lparr>ident = 2, major = 9, minor = 1, build = 76, revision = []\<rparr>, 3)]
     \<lparr>ident = 3, major = 9, minor = 1, build = 50, revision = []\<rparr>
   = [(\<lparr>ident = 1, major = 9, minor = 1, build = 71, revision = []\<rparr>, 2),
      (\<lparr>ident = 2, major = 9, minor = 1, build = 76, revision = []\<rparr>, 3)]
   \<and> migration_filter
     [(\<lparr>ident = 1, major = 9, minor = 1, build = 71, revision = []\<rparr>, 2::nat),
      (\<lparr>ident = 0, major = 9, minor = 1, build = 39, revision = []\<rparr>, 1),
      (\<lparr>ident = 2, major = 9, minor = 1, build = 76, revision = []\<rparr>, 3)]
     \<lparr>ident = 4, major = 9, minor = 1, build = 76, revision = []\<rparr>
   = []"
  (is "migration_filter ?defs ?p50 = ?r \<and> migration_filter ?defs ?p76 = []")
proof -
  have "migration_filter ?defs ?p50 =
          filter (\<lambda>t. version_lt ?p50 (fst t)) (sort_key (\<lambda>t. part (fst t)) ?defs)"
    using migration_filter_gate [of ?defs ?p50] by blast
  also have "\<dots> = ?r"
    by (simp add: part_def version_lt_def)
  finally have first: "migration_filter ?defs ?p50 = ?r" .
  have "\<forall>t \<in> set ?defs. version_ge ?p76 (fst t)"
    by (simp add: version_ge_def version_le_def part_def)
  with migration_filter_gate [of ?defs ?p76] have "migration_filter ?defs ?p76 = []"
    by blast
  with first show ?thesis by simp
qed

section \<open>The changed flag\<close>

text \<open>
  Claim C8 (changed flag).  For every fragment sequence and migration description,
  \<open>migrate\<close> returns changed = true if and only if at least one of the five action lists
  is not empty, and when changed is false the returned sequence is the input sequence.
\<close>

theorem migrate_changed_flag:
  "fst (migrate fragments migration_def) =
     (case migration_def_to_actions fragments migration_def of
        (rs, rk, mk, rms, rmk) \<Rightarrow> rs \<noteq> [] \<or> rk \<noteq> [] \<or> mk \<noteq> [] \<or> rms \<noteq> [] \<or> rmk \<noteq> [])
   \<and> (\<not> fst (migrate fragments migration_def) \<longrightarrow>
        snd (migrate fragments migration_def) = fragments)"
  by (auto simp: migrate_def Let_def split: prod.splits)

text \<open>A file with the section \<open>globals\<close> and a description for the section \<open>rdp\<close>: no
  action, no change.\<close>

theorem migrate_changed_flag_witness:
  "migration_def_to_actions
     [\<lparr>text = ''[globals]'', kind = Section, value1 = ''globals'', value2 = []\<rparr>,
      newline_fragment,
      \<lparr>text = ''a=b'', kind = KeyValue, value1 = ''a'', value2 = ''b''\<rparr>,
      newline_fragment, newline_fragment]
     [(''rdp'', RemoveSection)] = ([], [], [], [], [])
   \<and> \<not> fst (migrate
     [\<lparr>text = ''[globals]'', kind = Section, value1 = ''globals'', value2 = []\<rparr>,
      newline_fragment,
      \<lparr>text = ''a=b'', kind = KeyValue, value1 = ''a'', value2 = ''b''\<rparr>,
      newline_fragment, newline_fragment]
     [(''rdp'', RemoveSection)])
   \<and> snd (migrate
     [\<lparr>text = ''[globals]'', kind = Section, value1 = ''globals'', value2 = []\<rparr>,
      newline_fragment,
      \<lparr>text = ''a=b'', kind = KeyValue, value1 = ''a'', value2 = ''b''\<rparr>,
      newline_fragment, newline_fragment]
     [(''rdp'', RemoveSection)])
     = [\<lparr>text = ''[globals]'', kind = Section, value1 = ''globals'', value2 = []\<rparr>,
        newline_fragment,
        \<lparr>text = ''a=b'', kind = KeyValue, value1 = ''a'', value2 = ''b''\<rparr>,
        newline_fragment, newline_fragment]"
  (is "migration_def_to_actions ?f ?d = _ \<and> _ \<and> _")
proof -
  have acts: "migration_def_to_actions ?f ?d = ([], [], [], [], [])"
    by code_simp
  with migrate_changed_flag [of ?f ?d] have flag: "\<not> fst (migrate ?f ?d)"
    by simp
  with migrate_changed_flag [of ?f ?d] have "snd (migrate ?f ?d) = ?f"
    by blast
  with acts flag show ?thesis by simp
qed

section \<open>Classification of key updates\<close>

text \<open>The section name as written in the fragments read so far (the name of the last
  header, empty before the first one), and the name after the renaming steps that the
  description lists for it.\<close>

definition last_header :: "ConfigurationFragment list \<Rightarrow> ConfigurationFragment option" where
  "last_header fragments =
     (case rev (filter (\<lambda>x. kind x = Section) fragments) of [] \<Rightarrow> None | h # _ \<Rightarrow> Some h)"

definition written_section :: "ConfigurationFragment list \<Rightarrow> string" where
  "written_section fragments = (case last_header fragments of None \<Rightarrow> [] | Some h \<Rightarrow> value1 h)"

text \<open>The names of the headers, in order.\<close>

definition header_names :: "ConfigurationFragment list \<Rightarrow> string list" where
  "header_names fragments = map value1 (filter (\<lambda>f. kind f = Section) fragments)"

fun renamed_to :: "MigrationStep list \<Rightarrow> string \<Rightarrow> string" where
  "renamed_to [] name = name"
| "renamed_to (StepMoveSection new_name # orders) name = renamed_to orders new_name"
| "renamed_to (StepKeyOrders d # orders) name = renamed_to orders name"

definition current_section :: "MigrationDescType \<Rightarrow> ConfigurationFragment list \<Rightarrow> string" where
  "current_section migration_def fragments =
     (case last_header fragments of
        None \<Rightarrow> []
      | Some h \<Rightarrow>
          (case map_of migration_def (value1 h) of
             Some (OrderList orders) \<Rightarrow> renamed_to orders (value1 h)
           | _ \<Rightarrow> value1 h))"

lemma actions_scan_snoc:
  "actions_scan md (pre @ [f]) = actions_step md f (actions_scan md pre)"
  by (simp add: actions_scan_def)

lemma last_header_snoc:
  "last_header (pre @ [f]) = (if kind f = Section then Some f else last_header pre)"
  by (simp add: last_header_def)

lemma written_section_snoc:
  "written_section (pre @ [f]) = (if kind f = Section then value1 f else written_section pre)"
  by (simp add: written_section_def last_header_snoc)

lemma header_names_snoc:
  "header_names (pre @ [f]) = header_names pre @ (if kind f = Section then [value1 f] else [])"
  by (simp add: header_names_def)

lemma order_steps_sections:
  "section (order_steps orders st) = renamed_to orders (section st)
   \<and> original_section (order_steps orders st) = original_section st"
  by (induction orders st rule: order_steps.induct) simp_all

lemma on_key_value_sections:
  "section (on_key_value f st) = section st
   \<and> original_section (on_key_value f st) = original_section st"
  by (simp add: on_key_value_def split: option.splits MigrationKeyOrderType.splits prod.splits)

lemma on_section_sections:
  "original_section (on_section md f st) = value1 f
   \<and> section (on_section md f st) =
       (case map_of md (value1 f) of
          Some (OrderList orders) \<Rightarrow> renamed_to orders (value1 f)
        | _ \<Rightarrow> value1 f)"
  by (simp add: on_section_def Let_def order_steps_sections
      split: option.splits MigrationSectionOrderType.splits)

lemma actions_scan_sections:
  "original_section (actions_scan md pre) = written_section pre
   \<and> section (actions_scan md pre) = current_section md pre"
proof (induction pre rule: rev_induct)
  case Nil
  show ?case
    by (simp add: actions_scan_def initial_actions_def written_section_def current_section_def
        last_header_def)
next
  case (snoc f pre)
  show ?case
  proof (cases "kind f = Section")
    case True
    then show ?thesis
      by (simp add: actions_scan_snoc actions_step_def on_section_sections written_section_def
          current_section_def last_header_snoc)
  next
    case False
    with snoc show ?thesis
      by (simp add: actions_scan_snoc actions_step_def on_key_value_sections written_section_def
          current_section_def last_header_snoc)
  qed
qed

text \<open>
  Claim C3 (rule engine classification).  Let \<open>st\<close> be the state of the scan after any
  fragments \<open>pre\<close>, and let the next fragment \<open>f\<close> be a \<open>KeyValue\<close> whose key the active
  key-rule mapping sends to an update rule with the overrides \<open>us\<close>, \<open>uk\<close> and \<open>uv\<close>.  The
  current section of \<open>st\<close> is the section as renamed and its original section is the
  section as written.  The resulting triple takes the current section, the key and the
  value where an override is unset, and the value through the lookup table, unchanged
  where the table lacks it.  If the resulting section is the current section, the scan
  records a rename-key action and otherwise a move-key action, in both cases under the
  original section, and it records nothing else.
\<close>

theorem key_update_classification:
  assumes "kind f = KeyValue"
    and "migration_key_desc (actions_scan md pre) = Some d"
    and "map_of d (value1 f) = Some (UpdateItem us uk uv)"
  shows
    "let st = actions_scan md pre;
         t0 = (case us of Some s \<Rightarrow> s | None \<Rightarrow> section st);
         t1 = (case uk of Some k \<Rightarrow> k | None \<Rightarrow> value1 f);
         t2 = (case uv of
                 Some tbl \<Rightarrow> (case map_of tbl (value2 f) of Some v \<Rightarrow> v | None \<Rightarrow> value2 f)
               | None \<Rightarrow> value2 f)
     in section st = current_section md pre
      \<and> original_section st = written_section pre
      \<and> UpdateItem_call us uk uv (section st) (value1 f) (value2 f) = (t0, t1, t2)
      \<and> migration_def_to_actions (pre @ [f]) md =
          (renamed_sections st,
           renamed_keys st @
             (if t0 = section st then [(original_section st, value1 f, t1, t2)] else []),
           moved_keys st @
             (if t0 = section st then [] else [(original_section st, value1 f, t0, t1, t2)]),
           removed_sections st,
           removed_keys st)"
proof -
  from assms(3) have "d \<noteq> []" by auto
  with assms show ?thesis
    by (simp add: actions_scan_sections migration_def_to_actions_def actions_scan_snoc
        actions_step_def on_key_value_def UpdateItem_call_def action_lists_def Let_def
        cong: option.case_cong)
qed

text \<open>A section \<open>a\<close> that the description renames to \<open>z\<close> before it renames the key \<open>k\<close>
  to \<open>j\<close> and maps the value 1 to \<open>one\<close>: the rename-key action is recorded under \<open>a\<close>.\<close>

theorem key_update_classification_witness:
  "kind \<lparr>text = ''k=1'', kind = KeyValue, value1 = ''k'', value2 = ''1''\<rparr> = KeyValue
   \<and> migration_key_desc
        (actions_scan
           [(''a'', OrderList [StepMoveSection ''z'',
               StepKeyOrders [(''k'', UpdateItem None (Some ''j'') (Some [(''1'', ''one'')]))]])]
           [\<lparr>text = ''[a]'', kind = Section, value1 = ''a'', value2 = []\<rparr>, newline_fragment])
      = Some [(''k'', UpdateItem None (Some ''j'') (Some [(''1'', ''one'')]))]
   \<and> map_of [(''k'', UpdateItem None (Some ''j'') (Some [(''1'', ''one'')]))]
        (value1 \<lparr>text = ''k=1'', kind = KeyValue, value1 = ''k'', value2 = ''1''\<rparr>)
      = Some (UpdateItem None (Some ''j'') (Some [(''1'', ''one'')]))
   \<and> written_section
        [\<lparr>text = ''[a]'', kind = Section, value1 = ''a'', value2 = []\<rparr>, newline_fragment] = ''a''
   \<and> current_section
        [(''a'', OrderList [StepMoveSection ''z'',
            StepKeyOrders [(''k'', UpdateItem None (Some ''j'') (Some [(''1'', ''one'')]))]])]
        [\<lparr>text = ''[a]'', kind = Section, value1 = ''a'', value2 = []\<rparr>, newline_fragment] = ''z''
   \<and> migration_def_to_actions
        ([\<lparr>text = ''[a]'', kind = Section, value1 = ''a'', value2 = []\<rparr>, newline_fragment] @
         [\<lparr>text = ''k=1'', kind = KeyValue, value1 = ''k'', value2 = ''1''\<rparr>])
        [(''a'', OrderList [StepMoveSection ''z'',
            StepKeyOrders [(''k'', UpdateItem None (Some ''j'') (Some [(''1'', ''one'')]))]])]
      = ([(''a'', ''z'')], [(''a'', ''k'', ''j'', ''one'')], [], [], [])"
  (is "kind ?f = KeyValue \<and> migration_key_desc (actions_scan ?md ?pre) = Some ?d
       \<and> map_of ?d (value1 ?f) = Some (UpdateItem ?us ?uk ?uv) \<and> _ \<and> _ \<and> _")
proof -
  have h1: "kind ?f = KeyValue" by simp
  have st: "actions_scan ?md ?pre =
      \<lparr>section = ''z'', original_section = ''a'', migration_key_desc = Some ?d,
       renamed_sections = [(''a'', ''z'')], renamed_keys = [], moved_keys = [],
       removed_sections = [], removed_keys = []\<rparr>"
    by code_simp
  have h2: "migration_key_desc (actions_scan ?md ?pre) = Some ?d"
    by (simp add: st)
  have h3: "map_of ?d (value1 ?f) = Some (UpdateItem ?us ?uk ?uv)" by simp
  from key_update_classification [OF h1 h2 h3]
  have "current_section ?md ?pre = ''z'' \<and> written_section ?pre = ''a''
      \<and> migration_def_to_actions (?pre @ [?f]) ?md = ([(''a'', ''z'')], [(''a'', ''k'', ''j'', ''one'')], [], [], [])"
    by (simp add: st Let_def)
  with h1 h2 h3 show ?thesis by simp
qed

section \<open>Section spans at the end of a section\<close>

text \<open>
  Claim C2 (section span computation), where the code departs from it.  The file of the
  two lines \<^verbatim>\<open>[a]\<close> and \<^verbatim>\<open>k=v\<close> parses into a header, a line feed, a key and a line feed.
  The only span of the section \<open>a\<close> is \<open>(0, 2)\<close>, which covers the indices 0 and 1: its end
  is neither the end of the sequence (4) nor the last index (3), and the key at index 2
  lies in no span.
\<close>

theorem spans_miss_last_key:
  "parse_configuration (''[a]'' @ [CHR 0x0A] @ ''k=v'' @ [CHR 0x0A]) =
     [\<lparr>text = ''[a]'', kind = Section, value1 = ''a'', value2 = []\<rparr>,
      newline_fragment,
      \<lparr>text = ''k=v'', kind = KeyValue, value1 = ''k'', value2 = ''v''\<rparr>,
      newline_fragment]
   \<and> fragments_to_spans_of_sections
       [\<lparr>text = ''[a]'', kind = Section, value1 = ''a'', value2 = []\<rparr>,
        newline_fragment,
        \<lparr>text = ''k=v'', kind = KeyValue, value1 = ''k'', value2 = ''v''\<rparr>,
        newline_fragment] = [(''a'', [(0, 2)])]
   \<and> iter_from_spans [(0, 2)] = [0, 1]"
  by code_simp

text \<open>Before a following header the recorded end is the index before the header: with
  the header of \<open>b\<close> at index 4 the span of \<open>a\<close> is \<open>(0, 3)\<close>, which leaves out the
  line feed at index 3.\<close>

lemma spans_end_before_header:
  "parse_configuration
     (''[a]'' @ [CHR 0x0A] @ ''k=v'' @ [CHR 0x0A] @ ''[b]'' @ [CHR 0x0A, CHR 0x0A, CHR 0x0A]) =
     [\<lparr>text = ''[a]'', kind = Section, value1 = ''a'', value2 = []\<rparr>,
      newline_fragment,
      \<lparr>text = ''k=v'', kind = KeyValue, value1 = ''k'', value2 = ''v''\<rparr>,
      newline_fragment,
      \<lparr>text = ''[b]'', kind = Section, value1 = ''b'', value2 = []\<rparr>,
      newline_fragment, newline_fragment, newline_fragment]
   \<and> fragments_to_spans_of_sections
     [\<lparr>text = ''[a]'', kind = Section, value1 = ''a'', value2 = []\<rparr>,
      newline_fragment,
      \<lparr>text = ''k=v'', kind = KeyValue, value1 = ''k'', value2 = ''v''\<rparr>,
      newline_fragment,
      \<lparr>text = ''[b]'', kind = Section, value1 = ''b'', value2 = []\<rparr>,
      newline_fragment, newline_fragment, newline_fragment]
   = [(''a'', [(0, 3)]), (''b'', [(4, 6)])]"
  by code_simp

section \<open>Moving a key to a new section\<close>

text \<open>
  Claim C4 (move-key relocation), where the code departs from it.  The file of the two
  lines \<^verbatim>\<open>[rdp]\<close> and \<^verbatim>\<open>session_probe_exe_or_file=foo.exe\<close> has the section \<open>rdp\<close> with that
  key and no section \<open>session_probe\<close>.  Migrating it with the rule that moves the key to
  \<open>session_probe\<close> under \<open>exe_or_file\<close> reports a change and returns the fragments as
  they were: the key is not commented out and no section is appended, because the key
  lies outside the span computed for \<open>rdp\<close>.
\<close>

theorem move_key_on_last_line_is_lost:
  "migrate
     (parse_configuration
        (''[rdp]'' @ [CHR 0x0A] @ ''session_probe_exe_or_file=foo.exe'' @ [CHR 0x0A]))
     [(''rdp'', KeyOrders [(''session_probe_exe_or_file'',
                              UpdateItem (Some ''session_probe'') (Some ''exe_or_file'') None)])]
   = (True,
      [\<lparr>text = ''[rdp]'', kind = Section, value1 = ''rdp'', value2 = []\<rparr>,
       newline_fragment,
       \<lparr>text = ''session_probe_exe_or_file=foo.exe'', kind = KeyValue,
        value1 = ''session_probe_exe_or_file'', value2 = ''foo.exe''\<rparr>,
       newline_fragment])"
  by code_simp

text \<open>Read off the result: the change flag is set, and the texts of the returned
  fragments are those of the input.\<close>

theorem move_key_on_last_line_is_lost_witness:
  "fst (migrate
     (parse_configuration
        (''[rdp]'' @ [CHR 0x0A] @ ''session_probe_exe_or_file=foo.exe'' @ [CHR 0x0A]))
     [(''rdp'', KeyOrders [(''session_probe_exe_or_file'',
                              UpdateItem (Some ''session_probe'') (Some ''exe_or_file'') None)])])
   \<and> concat (map text (snd (migrate
     (parse_configuration
        (''[rdp]'' @ [CHR 0x0A] @ ''session_probe_exe_or_file=foo.exe'' @ [CHR 0x0A]))
     [(''rdp'', KeyOrders [(''session_probe_exe_or_file'',
                              UpdateItem (Some ''session_probe'') (Some ''exe_or_file'') None)])])))
     = ''[rdp]'' @ [CHR 0x0A] @ ''session_probe_exe_or_file=foo.exe'' @ [CHR 0x0A]"
  using move_key_on_last_line_is_lost by (simp add: newline_fragment_def)

text \<open>With one more line feed at the end of the file the key lies inside the span, and the
  output is the one the claim describes: the key commented out, and at the end a line
  feed, the header of the new section, a line feed, the new key and a line feed.\<close>

lemma move_key_before_blank_line:
  "migrate
     (parse_configuration
        (''[rdp]'' @ [CHR 0x0A] @ ''session_probe_exe_or_file=foo.exe'' @ [CHR 0x0A, CHR 0x0A]))
     [(''rdp'', KeyOrders [(''session_probe_exe_or_file'',
                              UpdateItem (Some ''session_probe'') (Some ''exe_or_file'') None)])]
   = (True,
      [\<lparr>text = ''[rdp]'', kind = Section, value1 = ''rdp'', value2 = []\<rparr>,
       newline_fragment,
       \<lparr>text = ''#session_probe_exe_or_file=foo.exe'', kind = Comment, value1 = [], value2 = []\<rparr>,
       newline_fragment,
       newline_fragment,
       newline_fragment,
       \<lparr>text = ''[session_probe]'', kind = Section, value1 = ''session_probe'', value2 = []\<rparr>,
       newline_fragment,
       \<lparr>text = ''exe_or_file=foo.exe'', kind = KeyValue, value1 = ''exe_or_file'',
        value2 = ''foo.exe''\<rparr>,
       newline_fragment])"
  by code_simp

section \<open>Removing a section\<close>

lemma reinject_fragments_snoc:
  "reinject_fragments (regs @ [(j, r)]) = (reinject_fragments regs)(j \<mapsto> r)"
  by (simp add: reinject_fragments_def)

lemma reinject_fragments_None:
  "reinject_fragments regs i = None \<longleftrightarrow> i \<notin> fst ` set regs"
proof (induction regs rule: rev_induct)
  case Nil
  show ?case by (simp add: reinject_fragments_def)
next
  case (snoc x regs)
  obtain j r where x: "x = (j, r)" by (cases x)
  with snoc show ?case by (auto simp: reinject_fragments_snoc)
qed

lemma reinject_fragments_uniform:
  assumes "\<And>j r. (j, r) \<in> set regs \<Longrightarrow> r = g j"
  shows "reinject_fragments regs i = (if i \<in> fst ` set regs then Some (g i) else None)"
  using assms
proof (induction regs rule: rev_induct)
  case Nil
  show ?case by (simp add: reinject_fragments_def)
next
  case (snoc x regs)
  obtain j r where x: "x = (j, r)" by (cases x)
  have "r = g j" using snoc.prems x by simp
  moreover have "reinject_fragments regs i = (if i \<in> fst ` set regs then Some (g i) else None)"
    using snoc by simp
  ultimately show ?case using x by (auto simp: reinject_fragments_snoc)
qed

text \<open>With nothing to add, the forward pass emits for every index its replacement, or
  the fragment itself.\<close>

lemma fold_insert_step_no_added:
  "fold (insert_step reinject) xs (res, []) =
     (res @ concat (map (\<lambda>(i, f). case reinject i of Some r \<Rightarrow> r | None \<Rightarrow> [f]) xs), [])"
proof (induction xs arbitrary: res)
  case Nil
  show ?case by simp
next
  case (Cons x xs)
  obtain i f where x: "x = (i, f)" by (cases x)
  have "insert_step reinject (i, f) (res, []) =
          (res @ (case reinject i of Some r \<Rightarrow> r | None \<Rightarrow> [f]), [])"
    by (simp add: Let_def split: option.splits)
  with Cons x show ?case by simp
qed

lemma concat_singletons_enumerate:
  "concat (map (\<lambda>(i, f). [h i f]) (enumerate 0 xs)) = map (\<lambda>i. h i (xs ! i)) [0..<length xs]"
proof -
  have "concat (map (\<lambda>(i, f). [h i f]) ys) = map (\<lambda>(i, f). h i f) ys" for ys
    by (induction ys) auto
  then have "concat (map (\<lambda>(i, f). [h i f]) (enumerate 0 xs)) =
      map (\<lambda>(i, f). h i f) (enumerate 0 xs)" .
  also have "\<dots> = map (\<lambda>i. h i (xs ! i)) [0..<length xs]"
    by (rule nth_equalityI) (simp_all add: nth_enumerate_eq)
  finally show ?thesis .
qed

lemma removed_sections_registrations_set:
  "fst ` set (removed_sections_registrations frs spans rms) =
     {i. (\<exists>s \<in> set rms. i \<in> set (iter_from_spans (spans_of spans s)))
         \<and> kind (frs ! i) \<in> {KeyValue, Section}}"
  by (auto simp: removed_sections_registrations_def image_iff)

lemma removed_sections_registrations_value:
  "(j, r) \<in> set (removed_sections_registrations frs spans rms) \<Longrightarrow> r = [comment_out (frs ! j)]"
  by (auto simp: removed_sections_registrations_def)

text \<open>The loop over the removed sections, relative to the spans that the span index
  computes.  For every fragment sequence and every migration description whose actions on
  it are the removal of whole sections (the list \<open>rms\<close>, not empty) and nothing else,
  the output has a fragment for every fragment of the input, at the same place: a fragment
  of kind \<open>Section\<close> or \<open>KeyValue\<close> at an index of a computed span of a removed
  section is replaced by one \<open>Comment\<close> fragment whose text is the original text behind
  a \<^verbatim>\<open>#\<close>, and every other fragment is itself.\<close>

lemma section_removal_frame:
  assumes "migration_def_to_actions fragments migration_def = ([], [], [], rms, [])"
    and "rms \<noteq> []"
  shows "migrate fragments migration_def =
     (True,
      map (\<lambda>i. if (\<exists>s \<in> set rms.
                      i \<in> set (iter_from_spans
                                 (spans_of (fragments_to_spans_of_sections fragments) s)))
                   \<and> kind (fragments ! i) \<in> {Section, KeyValue}
                then \<lparr>text = CHR ''#'' # text (fragments ! i), kind = Comment,
                      value1 = [], value2 = []\<rparr>
                else fragments ! i)
        [0..<length fragments])"
proof -
  let ?spans = "fragments_to_spans_of_sections fragments"
  let ?regs = "removed_sections_registrations fragments ?spans rms"
  let ?in = "\<lambda>i. (\<exists>s \<in> set rms. i \<in> set (iter_from_spans (spans_of ?spans s)))
                \<and> kind (fragments ! i) \<in> {Section, KeyValue}"
  have regs: "registrations fragments ?spans [] [] [] rms [] = ?regs"
    by (simp add: registrations_def renamed_keys_registrations_def
        commented_keys_registrations_def chain_removed_moved_def
        renamed_sections_registrations_def)
  have added: "added_keys_of fragments ?spans [] = []"
    by (simp add: added_keys_of_def)
  have re: "reinject_fragments ?regs i =
      (if ?in i then Some [comment_out (fragments ! i)] else None)" for i
    using reinject_fragments_uniform [of ?regs "\<lambda>j. [comment_out (fragments ! j)]" i,
        OF removed_sections_registrations_value]
    by (auto simp: removed_sections_registrations_set)
  have block: "(case reinject_fragments ?regs i of Some r \<Rightarrow> r | None \<Rightarrow> [f]) =
      [if ?in i then comment_out (fragments ! i) else f]" for i f
    by (simp add: re)
  have "fold (insert_step (reinject_fragments ?regs)) (enumerate 0 fragments) ([], []) =
      (concat (map (\<lambda>(i, f). [if ?in i then comment_out (fragments ! i) else f])
                 (enumerate 0 fragments)), [])"
    by (simp add: fold_insert_step_no_added block)
  also have "concat (map (\<lambda>(i, f). [if ?in i then comment_out (fragments ! i) else f])
                 (enumerate 0 fragments)) =
      map (\<lambda>i. if ?in i then comment_out (fragments ! i) else fragments ! i) [0..<length fragments]"
    by (rule concat_singletons_enumerate)
  finally have pass: "fold (insert_step (reinject_fragments ?regs)) (enumerate 0 fragments) ([], []) =
      (map (\<lambda>i. if ?in i then comment_out (fragments ! i) else fragments ! i)
         [0..<length fragments], [])" .
  show ?thesis
    using assms
    by (simp add: migrate_def Let_def regs added pass new_sections_def comment_out_def novalue_def)
qed

text \<open>The section \<open>all_target_mod\<close> with a key, a free comment and two line feeds at the end,
  removed as a whole.  Here the computed span reaches behind the key: the header and the
  key are commented out, the comment and the line feeds stay.\<close>

lemma section_removal_frame_example:
  "migration_def_to_actions
     [\<lparr>text = ''[all_target_mod]'', kind = Section, value1 = ''all_target_mod'', value2 = []\<rparr>,
      newline_fragment,
      \<lparr>text = ''connection_retry_count=3'', kind = KeyValue,
       value1 = ''connection_retry_count'', value2 = ''3''\<rparr>,
      newline_fragment,
      \<lparr>text = ''# free'', kind = Comment, value1 = [], value2 = []\<rparr>,
      newline_fragment,
      newline_fragment]
     [(''all_target_mod'', RemoveSection)] = ([], [], [], [''all_target_mod''], [])
   \<and> [''all_target_mod''] \<noteq> []
   \<and> migrate
     [\<lparr>text = ''[all_target_mod]'', kind = Section, value1 = ''all_target_mod'', value2 = []\<rparr>,
      newline_fragment,
      \<lparr>text = ''connection_retry_count=3'', kind = KeyValue,
       value1 = ''connection_retry_count'', value2 = ''3''\<rparr>,
      newline_fragment,
      \<lparr>text = ''# free'', kind = Comment, value1 = [], value2 = []\<rparr>,
      newline_fragment,
      newline_fragment]
     [(''all_target_mod'', RemoveSection)]
     = (True,
        [\<lparr>text = ''#[all_target_mod]'', kind = Comment, value1 = [], value2 = []\<rparr>,
         newline_fragment,
         \<lparr>text = ''#connection_retry_count=3'', kind = Comment, value1 = [], value2 = []\<rparr>,
         newline_fragment,
         \<lparr>text = ''# free'', kind = Comment, value1 = [], value2 = []\<rparr>,
         newline_fragment,
         newline_fragment])"
  (is "migration_def_to_actions ?f ?d = _ \<and> _ \<and> migrate ?f ?d = (True, ?out)")
proof -
  have acts: "migration_def_to_actions ?f ?d = ([], [], [], [''all_target_mod''], [])"
    by code_simp
  have ne: "[''all_target_mod''] \<noteq> []" by simp
  have out: "map (\<lambda>i. if (\<exists>s \<in> set [''all_target_mod''].
                      i \<in> set (iter_from_spans (spans_of (fragments_to_spans_of_sections ?f) s)))
                   \<and> kind (?f ! i) \<in> {Section, KeyValue}
                then \<lparr>text = CHR ''#'' # text (?f ! i), kind = Comment,
                      value1 = [], value2 = []\<rparr>
                else ?f ! i)
        [0..<length ?f] = ?out"
    by code_simp
  from section_removal_frame [OF acts ne] out have "migrate ?f ?d = (True, ?out)"
    by simp
  with acts ne show ?thesis by simp
qed

text \<open>The file of the two lines \<^verbatim>\<open>[all_target_mod]\<close> and
  \<^verbatim>\<open>connection_retry_count=3\<close> parses into the header, a line feed, the key and a line
  feed, and the span computed for its one section is \<open>(0, 2)\<close>: the key at index 2 lies
  behind its end.\<close>

lemma removed_section_parse_and_span:
  "parse_configuration
     (''[all_target_mod]'' @ [CHR 0x0A] @ ''connection_retry_count=3'' @ [CHR 0x0A]) =
     [\<lparr>text = ''[all_target_mod]'', kind = Section, value1 = ''all_target_mod'', value2 = []\<rparr>,
      newline_fragment,
      \<lparr>text = ''connection_retry_count=3'', kind = KeyValue,
       value1 = ''connection_retry_count'', value2 = ''3''\<rparr>,
      newline_fragment]
   \<and> fragments_to_spans_of_sections
     (parse_configuration
        (''[all_target_mod]'' @ [CHR 0x0A] @ ''connection_retry_count=3'' @ [CHR 0x0A]))
     = [(''all_target_mod'', [(0, 2)])]"
  by code_simp

text \<open>
  Claim C5 (section removal frame property), where the code departs from it.  In the file
  of the two lines \<^verbatim>\<open>[all_target_mod]\<close> and \<^verbatim>\<open>connection_retry_count=3\<close> the key
  belongs to the section \<open>all_target_mod\<close>.  Migrating the file with the description that
  removes that section sets the change flag, comments out the header and leaves the key
  as it is, a fragment of kind \<open>KeyValue\<close> with its text unchanged.
\<close>

theorem section_removal_misses_last_key:
  "migrate
     (parse_configuration
        (''[all_target_mod]'' @ [CHR 0x0A] @ ''connection_retry_count=3'' @ [CHR 0x0A]))
     [(''all_target_mod'', RemoveSection)]
     = (True,
        [\<lparr>text = ''#[all_target_mod]'', kind = Comment, value1 = [], value2 = []\<rparr>,
         newline_fragment,
         \<lparr>text = ''connection_retry_count=3'', kind = KeyValue,
          value1 = ''connection_retry_count'', value2 = ''3''\<rparr>,
         newline_fragment])"
  by code_simp

text \<open>The text of that output keeps the key line of the removed section.\<close>

theorem section_removal_misses_last_key_witness:
  "fst (migrate
     (parse_configuration
        (''[all_target_mod]'' @ [CHR 0x0A] @ ''connection_retry_count=3'' @ [CHR 0x0A]))
     [(''all_target_mod'', RemoveSection)])
   \<and> concat (map text (snd (migrate
     (parse_configuration
        (''[all_target_mod]'' @ [CHR 0x0A] @ ''connection_retry_count=3'' @ [CHR 0x0A]))
     [(''all_target_mod'', RemoveSection)])))
     = ''#[all_target_mod]'' @ [CHR 0x0A] @ ''connection_retry_count=3'' @ [CHR 0x0A]"
  using section_removal_misses_last_key by (simp add: newline_fragment_def)

text \<open>The description that removes the one section \<open>sec\<close> has these actions: one removal
  for every header of that name.  So the lemma on the loop over the removed sections
  applies to it as soon as the sequence holds a header named \<open>sec\<close>, and without such a
  header \<open>migrate\<close> returns the sequence unchanged.\<close>

lemma single_removal_scan:
  "actions_scan [(sec, RemoveSection)] pre =
     \<lparr>section = written_section pre, original_section = written_section pre,
      migration_key_desc = None, renamed_sections = [], renamed_keys = [], moved_keys = [],
      removed_sections = filter (\<lambda>name. name = sec) (header_names pre), removed_keys = []\<rparr>"
proof (induction pre rule: rev_induct)
  case Nil
  show ?case
    by (simp add: actions_scan_def initial_actions_def written_section_def last_header_def
        header_names_def)
next
  case (snoc f pre)
  show ?case
    by (simp add: actions_scan_snoc snoc actions_step_def on_key_value_def on_section_def
        written_section_snoc header_names_snoc)
qed

lemma single_removal_actions:
  "migration_def_to_actions fragments [(sec, RemoveSection)] =
     ([], [], [], filter (\<lambda>name. name = sec) (header_names fragments), [])"
  by (simp add: migration_def_to_actions_def action_lists_def single_removal_scan)

lemma single_removal_without_header:
  assumes "sec \<notin> set (header_names fragments)"
  shows "migrate fragments [(sec, RemoveSection)] = (False, fragments)"
proof -
  from assms have "filter (\<lambda>name. name = sec) (header_names fragments) = []"
    by (auto simp: filter_empty_conv)
  then show ?thesis
    by (simp add: migrate_def single_removal_actions)
qed

section \<open>Properties of the section spans\<close>

text \<open>The invariant of the loop of \<^verbatim>\<open>fragments_to_spans_of_sections\<close> after \<open>n\<close> fragments:
  no header lies between the start and \<open>n\<close>; the spans of a name are in ascending order
  and apart; every span is not empty, ends before the start and holds no header after its
  first index; and spans of different names do not overlap.\<close>

lemma spans_of_dict_extend:
  "spans_of (dict_extend d k [v]) name = (if name = k then spans_of d k @ [v] else spans_of d name)"
  by (auto simp: spans_of_def dict_extend_def update_conv' map_add_def split: option.splits)

definition spans_inv ::
  "ConfigurationFragment list \<Rightarrow> nat \<Rightarrow> nat \<times> string \<times> section_spans \<Rightarrow> bool" where
  "spans_inv frs n st =
     (case st of (start, sect, d) \<Rightarrow>
        (start = 0 \<or> start < n) \<and>
        (\<forall>j. start < j \<and> j < n \<longrightarrow> kind (frs ! j) \<noteq> Section) \<and>
        (\<forall>name. sorted_wrt (\<lambda>x y. snd x < fst y) (spans_of d name)) \<and>
        (\<forall>name a b. (a, b) \<in> set (spans_of d name) \<longrightarrow>
           a < b \<and> b < start \<and> (\<forall>j. a < j \<and> j \<le> b \<longrightarrow> kind (frs ! j) \<noteq> Section)) \<and>
        (\<forall>name name' x y. x \<in> set (spans_of d name) \<and> y \<in> set (spans_of d name') \<and>
           name \<noteq> name' \<longrightarrow> snd x \<le> fst y \<or> snd y \<le> fst x))"

lemma spans_invI:
  assumes "start = 0 \<or> start < n"
    and "\<And>j. start < j \<Longrightarrow> j < n \<Longrightarrow> kind (frs ! j) \<noteq> Section"
    and "\<And>name. sorted_wrt (\<lambda>x y. snd x < fst y) (spans_of d name)"
    and "\<And>name a b. (a, b) \<in> set (spans_of d name) \<Longrightarrow>
           a < b \<and> b < start \<and> (\<forall>j. a < j \<and> j \<le> b \<longrightarrow> kind (frs ! j) \<noteq> Section)"
    and "\<And>name name' x y. x \<in> set (spans_of d name) \<Longrightarrow> y \<in> set (spans_of d name') \<Longrightarrow>
           name \<noteq> name' \<Longrightarrow> snd x \<le> fst y \<or> snd y \<le> fst x"
  shows "spans_inv frs n (start, sect, d)"
  unfolding spans_inv_def prod.case
  using assms(1) assms(2) assms(3) assms(4) assms(5) by blast

lemma spans_inv_bound:
  "spans_inv frs n (start, sect, d) \<Longrightarrow> start = 0 \<or> start < n"
  unfolding spans_inv_def prod.case by blast

lemma spans_inv_after:
  "spans_inv frs n (start, sect, d) \<Longrightarrow> start < j \<Longrightarrow> j < n \<Longrightarrow> kind (frs ! j) \<noteq> Section"
  unfolding spans_inv_def prod.case by blast

lemma spans_inv_sorted:
  "spans_inv frs n (start, sect, d) \<Longrightarrow> sorted_wrt (\<lambda>x y. snd x < fst y) (spans_of d name)"
  unfolding spans_inv_def prod.case by blast

lemma spans_inv_span:
  "spans_inv frs n (start, sect, d) \<Longrightarrow> (a, b) \<in> set (spans_of d name) \<Longrightarrow>
     a < b \<and> b < start \<and> (\<forall>j. a < j \<and> j \<le> b \<longrightarrow> kind (frs ! j) \<noteq> Section)"
  unfolding spans_inv_def prod.case by blast

lemma spans_inv_cross:
  "spans_inv frs n (start, sect, d) \<Longrightarrow> x \<in> set (spans_of d name) \<Longrightarrow>
     y \<in> set (spans_of d name') \<Longrightarrow> name \<noteq> name' \<Longrightarrow> snd x \<le> fst y \<or> snd y \<le> fst x"
  unfolding spans_inv_def prod.case by blast

lemma spans_inv_init: "spans_inv frs 0 (0, [], [])"
  by (rule spans_invI) (simp_all add: spans_of_def)

text \<open>Recording the span \<open>(start, e)\<close> and moving the start behind it.\<close>

lemma spans_inv_extend:
  assumes inv: "spans_inv frs n (start, sect, d)"
    and lt: "start < e" and e: "e < start'"
    and inner: "\<And>j. start < j \<Longrightarrow> j \<le> e \<Longrightarrow> kind (frs ! j) \<noteq> Section"
    and bound': "start' = 0 \<or> start' < n'"
    and after': "\<And>j. start' < j \<Longrightarrow> j < n' \<Longrightarrow> kind (frs ! j) \<noteq> Section"
  shows "spans_inv frs n' (start', sect', dict_extend d sect [(start, e)])"
proof (rule spans_invI)
  let ?d = "dict_extend d sect [(start, e)]"
  note old = spans_inv_span [OF inv]
  show "start' = 0 \<or> start' < n'" by (rule bound')
  show "kind (frs ! j) \<noteq> Section" if "start' < j" "j < n'" for j
    using that by (rule after')
  show "sorted_wrt (\<lambda>x y. snd x < fst y) (spans_of ?d name)" for name
  proof (cases "name = sect")
    case False
    then show ?thesis using spans_inv_sorted [OF inv, of name] by (simp add: spans_of_dict_extend)
  next
    case True
    have "snd x < start" if "x \<in> set (spans_of d sect)" for x
      using old [of "fst x" "snd x" sect] that by simp
    with True spans_inv_sorted [OF inv, of sect] show ?thesis
      by (simp add: spans_of_dict_extend sorted_wrt_append)
  qed
  show "a < b \<and> b < start' \<and> (\<forall>j. a < j \<and> j \<le> b \<longrightarrow> kind (frs ! j) \<noteq> Section)"
    if "(a, b) \<in> set (spans_of ?d name)" for name a b
  proof (cases "(a, b) \<in> set (spans_of d name)")
    case True
    from old [OF this] lt e show ?thesis by auto
  next
    case False
    with that have "(a, b) = (start, e)"
      by (auto simp: spans_of_dict_extend split: if_splits)
    with lt e inner show ?thesis by auto
  qed
  show "snd x \<le> fst y \<or> snd y \<le> fst x"
    if x: "x \<in> set (spans_of ?d name)" and y: "y \<in> set (spans_of ?d name')"
      and ne: "name \<noteq> name'" for name name' x y
  proof -
    consider "x \<in> set (spans_of d name)" "y \<in> set (spans_of d name')"
      | "x \<in> set (spans_of d name)" "y = (start, e)"
      | "x = (start, e)" "y \<in> set (spans_of d name')"
      using x y ne by (auto simp: spans_of_dict_extend split: if_splits)
    then show ?thesis
    proof cases
      case 1
      from spans_inv_cross [OF inv 1 ne] show ?thesis .
    next
      case 2
      with old [of "fst x" "snd x" name] show ?thesis by simp
    next
      case 3
      with old [of "fst y" "snd y" name'] show ?thesis by simp
    qed
  qed
qed

text \<open>Moving on without recording a span.\<close>

lemma spans_inv_move:
  assumes inv: "spans_inv frs n (start, sect, d)"
    and bound': "start' = 0 \<or> start' < n'" and ge: "start \<le> start'"
    and after': "\<And>j. start' < j \<Longrightarrow> j < n' \<Longrightarrow> kind (frs ! j) \<noteq> Section"
  shows "spans_inv frs n' (start', sect', d)"
proof (rule spans_invI)
  show "start' = 0 \<or> start' < n'" by (rule bound')
  show "kind (frs ! j) \<noteq> Section" if "start' < j" "j < n'" for j
    using that by (rule after')
  show "sorted_wrt (\<lambda>x y. snd x < fst y) (spans_of d name)" for name
    by (rule spans_inv_sorted [OF inv])
  show "a < b \<and> b < start' \<and> (\<forall>j. a < j \<and> j \<le> b \<longrightarrow> kind (frs ! j) \<noteq> Section)"
    if "(a, b) \<in> set (spans_of d name)" for name a b
    using spans_inv_span [OF inv that] ge by auto
  show "snd x \<le> fst y \<or> snd y \<le> fst x"
    if "x \<in> set (spans_of d name)" "y \<in> set (spans_of d name')" "name \<noteq> name'"
    for name name' x y
    using that by (rule spans_inv_cross [OF inv])
qed

lemma spans_inv_step:
  assumes inv: "spans_inv frs n st"
  shows "spans_inv frs (Suc n) (spans_step (n, frs ! n) st)"
proof -
  obtain start sect d where st: "st = (start, sect, d)" by (cases st)
  note inv = inv [unfolded st]
  note bound = spans_inv_bound [OF inv]
  show ?thesis
  proof (cases "kind (frs ! n) = Section")
    case False
    have "spans_inv frs (Suc n) (start, sect, d)"
    proof (rule spans_inv_move [OF inv])
      show "start = 0 \<or> start < Suc n" using bound by auto
      show "kind (frs ! j) \<noteq> Section" if "start < j" "j < Suc n" for j
        using that False spans_inv_after [OF inv, of j] by (cases "j = n") auto
    qed simp
    with False st show ?thesis by simp
  next
    case True
    show ?thesis
    proof (cases "start + 1 < n")
      case False
      have "spans_inv frs (Suc n) (n, value1 (frs ! n), d)"
        by (rule spans_inv_move [OF inv]) (use bound in auto)
      with True False st show ?thesis by simp
    next
      case long: True
      have "spans_inv frs (Suc n) (n, value1 (frs ! n), dict_extend d sect [(start, n - 1)])"
      proof (rule spans_inv_extend [OF inv])
        show "start < n - 1" using long by simp
        show "n - 1 < n" using long by simp
        show "kind (frs ! j) \<noteq> Section" if "start < j" "j \<le> n - 1" for j
          using that long spans_inv_after [OF inv, of j] by simp
      qed auto
      with True long st show ?thesis by simp
    qed
  qed
qed

lemma spans_inv_loop:
  "n \<le> length frs \<Longrightarrow>
   spans_inv frs n (fold spans_step (take n (enumerate 0 frs)) (0, [], []))"
proof (induction n)
  case 0
  show ?case by (simp add: spans_inv_init)
next
  case (Suc n)
  then have n: "n < length frs" by simp
  then have "take (Suc n) (enumerate 0 frs) = take n (enumerate 0 frs) @ [(n, frs ! n)]"
    by (simp add: take_Suc_conv_app_nth nth_enumerate_eq)
  with Suc.IH n show ?case
    by (simp add: spans_inv_step)
qed

lemma spans_inv_final:
  "\<exists>start sect. spans_inv frs (length frs) (start, sect, fragments_to_spans_of_sections frs)"
proof -
  obtain start sect d where st: "fold spans_step (enumerate 0 frs) (0, [], []) = (start, sect, d)"
    by (cases "fold spans_step (enumerate 0 frs) (0, [], [])")
  from spans_inv_loop [of "length frs" frs] st
  have inv: "spans_inv frs (length frs) (start, sect, d)" by simp
  show ?thesis
  proof (cases "start + 1 < length frs - 1")
    case False
    with st inv show ?thesis
      by (auto simp: fragments_to_spans_of_sections_def Let_def)
  next
    case True
    have "spans_inv frs (length frs) (length frs - 1, sect, dict_extend d sect [(start, length frs - 1 - 1)])"
    proof (rule spans_inv_extend [OF inv])
      show "start < length frs - 1 - 1" using True by simp
      show "length frs - 1 - 1 < length frs - 1" using True by simp
      show "kind (frs ! j) \<noteq> Section" if "start < j" "j \<le> length frs - 1 - 1" for j
        using that True spans_inv_after [OF inv, of j] by simp
      show "length frs - 1 = 0 \<or> length frs - 1 < length frs" using True by arith
    qed simp
    with st True show ?thesis
      by (auto simp: fragments_to_spans_of_sections_def Let_def)
  qed
qed

text \<open>What holds of the spans of every sequence.\<close>

lemma span_facts:
  assumes "(a, b) \<in> set (spans_of (fragments_to_spans_of_sections frs) name)"
  shows "a < b" and "b < length frs" and "\<And>j. a < j \<Longrightarrow> j \<le> b \<Longrightarrow> kind (frs ! j) \<noteq> Section"
proof -
  from spans_inv_final obtain start sect
    where inv: "spans_inv frs (length frs) (start, sect, fragments_to_spans_of_sections frs)"
    by blast
  from spans_inv_span [OF inv assms] spans_inv_bound [OF inv]
  show "a < b" and "b < length frs" and "\<And>j. a < j \<Longrightarrow> j \<le> b \<Longrightarrow> kind (frs ! j) \<noteq> Section"
    by auto
qed

lemma spans_sorted:
  "sorted_wrt (\<lambda>x y. snd x < fst y) (spans_of (fragments_to_spans_of_sections frs) name)"
  using spans_inv_final [of frs] spans_inv_sorted by blast

lemma spans_cross:
  assumes "x \<in> set (spans_of (fragments_to_spans_of_sections frs) name)"
    and "y \<in> set (spans_of (fragments_to_spans_of_sections frs) name')"
    and "name \<noteq> name'"
  shows "snd x \<le> fst y \<or> snd y \<le> fst x"
  using spans_inv_final [of frs] spans_inv_cross assms by blast

section \<open>Headers without a body\<close>

lemma set_iter_from_spans:
  "i \<in> set (iter_from_spans l) \<longleftrightarrow> (\<exists>(a, b) \<in> set l. a \<le> i \<and> i < b)"
  by (auto simp: iter_from_spans_def)

lemma set_iter_key_fragment:
  "(i, f) \<in> set (iter_key_fragment frs spans name k) \<longleftrightarrow>
     i \<in> set (iter_from_spans (spans_of spans name)) \<and> kind (frs ! i) = KeyValue
     \<and> value1 (frs ! i) = k \<and> f = frs ! i"
  by (auto simp: iter_key_fragment_def)

text \<open>Every index that receives a replacement lies inside a span.\<close>

lemma registrations_in_spans:
  assumes "i \<in> fst ` set (registrations frs (fragments_to_spans_of_sections frs) rs rk mk rms rmk)"
  shows "\<exists>name a b. (a, b) \<in> set (spans_of (fragments_to_spans_of_sections frs) name)
           \<and> a \<le> i \<and> i < b"
proof -
  let ?spans = "fragments_to_spans_of_sections frs"
  have iter: "\<exists>name a b. (a, b) \<in> set (spans_of ?spans name) \<and> a \<le> i \<and> i < b"
    if "i \<in> set (iter_from_spans (spans_of ?spans name))" for name
    using that by (auto simp: set_iter_from_spans)
  from assms consider
      "i \<in> fst ` set (renamed_keys_registrations frs ?spans rk)"
    | "i \<in> fst ` set (removed_sections_registrations frs ?spans rms)"
    | "i \<in> fst ` set (commented_keys_registrations frs ?spans (chain_removed_moved rmk mk))"
    | "i \<in> fst ` set (renamed_sections_registrations frs ?spans rs)"
    by (auto simp: registrations_def)
  then show ?thesis
  proof cases
    case 1
    then obtain name where "i \<in> set (iter_from_spans (spans_of ?spans name))"
      by (auto simp: renamed_keys_registrations_def set_iter_key_fragment)
    then show ?thesis by (rule iter)
  next
    case 2
    then obtain name where "i \<in> set (iter_from_spans (spans_of ?spans name))"
      by (auto simp: removed_sections_registrations_def)
    then show ?thesis by (rule iter)
  next
    case 3
    then obtain name where "i \<in> set (iter_from_spans (spans_of ?spans name))"
      by (auto simp: commented_keys_registrations_def set_iter_key_fragment)
    then show ?thesis by (rule iter)
  next
    case 4
    then obtain name b where sp: "(i, b) \<in> set (spans_of ?spans name)"
      by (auto simp: renamed_sections_registrations_def)
    from span_facts(1) [OF sp] sp show ?thesis by auto
  qed
qed

text \<open>A header that the next header follows at once, or that ends the sequence, lies
  inside no span.\<close>

lemma bare_header_in_no_span:
  assumes s: "s < length frs" and h: "kind (frs ! s) = Section"
    and nxt: "Suc s = length frs \<or> kind (frs ! Suc s) = Section"
    and sp: "(a, b) \<in> set (spans_of (fragments_to_spans_of_sections frs) name)"
  shows "\<not> (a \<le> s \<and> s < b)"
proof
  assume in_span: "a \<le> s \<and> s < b"
  note facts = span_facts [OF sp]
  show False
  proof (cases "a = s")
    case False
    with in_span have "a < s" "s \<le> b" by auto
    from facts(3) [OF this] h show False by simp
  next
    case True
    with in_span have "a < Suc s" "Suc s \<le> b" by auto
    from facts(3) [OF this] facts(2) \<open>Suc s \<le> b\<close> nxt show False by auto
  qed
qed

text \<open>The forward pass only appends to its result.\<close>

lemma fold_insert_step_appends:
  "\<exists>ys. fst (fold (insert_step reinject) xs (res, added_keys)) = res @ ys"
proof (induction xs arbitrary: res added_keys)
  case Nil
  show ?case by simp
next
  case (Cons x xs)
  obtain i f where x: "x = (i, f)" by (cases x)
  obtain res' added' where step: "insert_step reinject (i, f) (res, added_keys) = (res', added')"
    by (cases "insert_step reinject (i, f) (res, added_keys)")
  then obtain zs where res': "res' = res @ zs"
    by (auto simp: Let_def split: option.splits if_splits)
  from Cons.IH [of res' added'] obtain ys
    where "fst (fold (insert_step reinject) xs (res', added')) = res' @ ys" by blast
  with x step res' show ?case by simp
qed

lemma insert_step_unregistered:
  assumes "reinject i = None"
  shows "\<exists>keys added'. insert_step reinject (i, f) (res, added_keys) = (res @ f # keys, added')"
  using assms by (simp add: Let_def split: option.splits)

lemma enumerate_split:
  assumes "s < length frs"
  shows "enumerate 0 frs = take s (enumerate 0 frs) @ (s, frs ! s) # drop (Suc s) (enumerate 0 frs)"
proof -
  from assms have "s < length (enumerate 0 frs)" by simp
  from id_take_nth_drop [OF this] assms show ?thesis
    by (simp add: nth_enumerate_eq)
qed

lemma forward_pass_unregistered:
  assumes s: "s < length frs" and none: "reinject s = None"
  shows "\<exists>post. fst (fold (insert_step reinject) (enumerate 0 frs) ([], added_keys)) =
           fst (fold (insert_step reinject) (take s (enumerate 0 frs)) ([], added_keys))
           @ frs ! s # post"
proof -
  obtain res1 added1
    where one: "fold (insert_step reinject) (take s (enumerate 0 frs)) ([], added_keys) = (res1, added1)"
    by (cases "fold (insert_step reinject) (take s (enumerate 0 frs)) ([], added_keys)")
  from insert_step_unregistered [of reinject s "frs ! s" res1 added1, OF none] obtain keys added2
    where two: "insert_step reinject (s, frs ! s) (res1, added1) = (res1 @ frs ! s # keys, added2)"
    by blast
  from fold_insert_step_appends obtain ys
    where three: "fst (fold (insert_step reinject) (drop (Suc s) (enumerate 0 frs))
                    (res1 @ frs ! s # keys, added2)) = (res1 @ frs ! s # keys) @ ys"
    by blast
  have "fold (insert_step reinject) (enumerate 0 frs) ([], added_keys) =
      fold (insert_step reinject) (drop (Suc s) (enumerate 0 frs)) (res1 @ frs ! s # keys, added2)"
    by (subst enumerate_split [OF s]) (simp add: one two del: insert_step.simps)
  with three one show ?thesis by simp
qed

lemma migrate_unchanged:
  assumes "migration_def_to_actions frs md = ([], [], [], [], [])"
  shows "migrate frs md = (False, frs)"
  using assms by (simp add: migrate_def)

lemma migrate_changed:
  assumes "migration_def_to_actions frs md = (rs, rk, mk, rms, rmk)"
    and "\<not> (rs = [] \<and> rk = [] \<and> mk = [] \<and> rms = [] \<and> rmk = [])"
  shows "migrate frs md =
     (True,
      fst (fold (insert_step
             (reinject_fragments
                (registrations frs (fragments_to_spans_of_sections frs) rs rk mk rms rmk)))
           (enumerate 0 frs)
           ([], added_keys_of frs (fragments_to_spans_of_sections frs) mk))
      @ new_sections
          (snd (fold (insert_step
             (reinject_fragments
                (registrations frs (fragments_to_spans_of_sections frs) rs rk mk rms rmk)))
           (enumerate 0 frs)
           ([], added_keys_of frs (fragments_to_spans_of_sections frs) mk))))"
proof -
  from assms(2) have "rs \<noteq> [] \<or> rk \<noteq> [] \<or> mk \<noteq> [] \<or> rms \<noteq> [] \<or> rmk \<noteq> []"
    by blast
  with assms(1) show ?thesis
    by (simp add: migrate_def Let_def split: prod.splits)
qed

text \<open>
  Claim C10 (empty sections are immune to section-level rules).  For every fragment
  sequence, a \<open>Section\<close> fragment at index \<open>s\<close> that is followed at once by another
  \<open>Section\<close> fragment, or that is the last fragment, lies inside no span of the section
  index (in particular no span starts at it).  So for every migration description no
  replacement is registered for \<open>s\<close>, whatever rule names that section: the output of
  \<open>migrate\<close> is what was emitted for the fragments before \<open>s\<close> (these fragments
  themselves when nothing changed), then the header fragment itself, then the rest.
\<close>

theorem bare_header_untouched:
  assumes s: "s < length fragments" and h: "kind (fragments ! s) = Section"
    and nxt: "Suc s = length fragments \<or> kind (fragments ! Suc s) = Section"
    and acts: "migration_def_to_actions fragments migration_def = (rs, rk, mk, rms, rmk)"
  shows
    "(\<forall>name a b. (a, b) \<in> set (spans_of (fragments_to_spans_of_sections fragments) name) \<longrightarrow>
        \<not> (a \<le> s \<and> s < b))
     \<and> reinject_fragments
         (registrations fragments (fragments_to_spans_of_sections fragments) rs rk mk rms rmk) s
       = None
     \<and> (\<exists>post. snd (migrate fragments migration_def) =
          (if fst (migrate fragments migration_def)
           then fst (fold (insert_step
                       (reinject_fragments
                          (registrations fragments (fragments_to_spans_of_sections fragments)
                             rs rk mk rms rmk)))
                     (take s (enumerate 0 fragments))
                     ([], added_keys_of fragments (fragments_to_spans_of_sections fragments) mk))
           else take s fragments)
          @ fragments ! s # post)"
proof -
  let ?spans = "fragments_to_spans_of_sections fragments"
  let ?re = "reinject_fragments (registrations fragments ?spans rs rk mk rms rmk)"
  let ?added = "added_keys_of fragments ?spans mk"
  have no_span: "\<forall>name a b. (a, b) \<in> set (spans_of ?spans name) \<longrightarrow> \<not> (a \<le> s \<and> s < b)"
    using bare_header_in_no_span [OF s h nxt] by blast
  have none: "?re s = None"
    unfolding reinject_fragments_None
    using registrations_in_spans [of s fragments rs rk mk rms rmk] no_span by blast
  have out: "\<exists>post. snd (migrate fragments migration_def) =
          (if fst (migrate fragments migration_def)
           then fst (fold (insert_step ?re) (take s (enumerate 0 fragments)) ([], ?added))
           else take s fragments)
          @ fragments ! s # post"
  proof (cases "rs = [] \<and> rk = [] \<and> mk = [] \<and> rms = [] \<and> rmk = []")
    case True
    with acts have "migrate fragments migration_def = (False, fragments)"
      by (simp add: migrate_unchanged)
    with id_take_nth_drop [OF s] show ?thesis by auto
  next
    case False
    note m = migrate_changed [OF acts False]
    from forward_pass_unregistered [of s fragments ?re ?added, OF s none] obtain post
      where "fst (fold (insert_step ?re) (enumerate 0 fragments) ([], ?added)) =
          fst (fold (insert_step ?re) (take s (enumerate 0 fragments)) ([], ?added))
          @ fragments ! s # post"
      by blast
    then show ?thesis unfolding m by simp
  qed
  from no_span none out show ?thesis by blast
qed

text \<open>The header of \<open>b\<close>, followed at once by the header of \<open>c\<close>, with a description that
  removes \<open>b\<close> and renames \<open>c\<close>: the header of \<open>b\<close> stays, the header of \<open>c\<close> is renamed.\<close>

theorem bare_header_untouched_witness:
  "0 < length
     [\<lparr>text = ''[b]'', kind = Section, value1 = ''b'', value2 = []\<rparr>,
      \<lparr>text = ''[c]'', kind = Section, value1 = ''c'', value2 = []\<rparr>,
      newline_fragment,
      \<lparr>text = ''k=3'', kind = KeyValue, value1 = ''k'', value2 = ''3''\<rparr>,
      newline_fragment,
      newline_fragment]
   \<and> kind ([\<lparr>text = ''[b]'', kind = Section, value1 = ''b'', value2 = []\<rparr>,
      \<lparr>text = ''[c]'', kind = Section, value1 = ''c'', value2 = []\<rparr>,
      newline_fragment,
      \<lparr>text = ''k=3'', kind = KeyValue, value1 = ''k'', value2 = ''3''\<rparr>,
      newline_fragment,
      newline_fragment] ! 0) = Section
   \<and> kind ([\<lparr>text = ''[b]'', kind = Section, value1 = ''b'', value2 = []\<rparr>,
      \<lparr>text = ''[c]'', kind = Section, value1 = ''c'', value2 = []\<rparr>,
      newline_fragment,
      \<lparr>text = ''k=3'', kind = KeyValue, value1 = ''k'', value2 = ''3''\<rparr>,
      newline_fragment,
      newline_fragment] ! Suc 0) = Section
   \<and> migration_def_to_actions
     [\<lparr>text = ''[b]'', kind = Section, value1 = ''b'', value2 = []\<rparr>,
      \<lparr>text = ''[c]'', kind = Section, value1 = ''c'', value2 = []\<rparr>,
      newline_fragment,
      \<lparr>text = ''k=3'', kind = KeyValue, value1 = ''k'', value2 = ''3''\<rparr>,
      newline_fragment,
      newline_fragment]
     [(''b'', RemoveSection), (''c'', MoveSection ''d'')] = ([(''c'', ''d'')], [], [], [''b''], [])
   \<and> reinject_fragments
       (registrations
          [\<lparr>text = ''[b]'', kind = Section, value1 = ''b'', value2 = []\<rparr>,
           \<lparr>text = ''[c]'', kind = Section, value1 = ''c'', value2 = []\<rparr>,
           newline_fragment,
           \<lparr>text = ''k=3'', kind = KeyValue, value1 = ''k'', value2 = ''3''\<rparr>,
           newline_fragment,
           newline_fragment]
          (fragments_to_spans_of_sections
             [\<lparr>text = ''[b]'', kind = Section, value1 = ''b'', value2 = []\<rparr>,
              \<lparr>text = ''[c]'', kind = Section, value1 = ''c'', value2 = []\<rparr>,
              newline_fragment,
              \<lparr>text = ''k=3'', kind = KeyValue, value1 = ''k'', value2 = ''3''\<rparr>,
              newline_fragment,
              newline_fragment])
          [(''c'', ''d'')] [] [] [''b''] []) 0 = None
   \<and> migrate
     [\<lparr>text = ''[b]'', kind = Section, value1 = ''b'', value2 = []\<rparr>,
      \<lparr>text = ''[c]'', kind = Section, value1 = ''c'', value2 = []\<rparr>,
      newline_fragment,
      \<lparr>text = ''k=3'', kind = KeyValue, value1 = ''k'', value2 = ''3''\<rparr>,
      newline_fragment,
      newline_fragment]
     [(''b'', RemoveSection), (''c'', MoveSection ''d'')]
     = (True,
        [\<lparr>text = ''[b]'', kind = Section, value1 = ''b'', value2 = []\<rparr>,
         \<lparr>text = ''#[c]'', kind = Comment, value1 = [], value2 = []\<rparr>,
         newline_fragment,
         \<lparr>text = ''[d]'', kind = Section, value1 = ''d'', value2 = []\<rparr>,
         newline_fragment,
         \<lparr>text = ''k=3'', kind = KeyValue, value1 = ''k'', value2 = ''3''\<rparr>,
         newline_fragment,
         newline_fragment])"
  (is "0 < length ?f \<and> _ \<and> _ \<and> migration_def_to_actions ?f ?d = _ \<and> _ \<and> migrate ?f ?d = ?out")
proof -
  have h1: "0 < length ?f" by simp
  have h2: "kind (?f ! 0) = Section" by simp
  have h3: "kind (?f ! Suc 0) = Section" by simp
  then have h3': "Suc 0 = length ?f \<or> kind (?f ! Suc 0) = Section" by (rule disjI2)
  have acts: "migration_def_to_actions ?f ?d = ([(''c'', ''d'')], [], [], [''b''], [])"
    by code_simp
  from bare_header_untouched [OF h1 h2 h3' acts]
  have none: "reinject_fragments
       (registrations ?f (fragments_to_spans_of_sections ?f) [(''c'', ''d'')] [] [] [''b''] []) 0
       = None"
    by blast
  have out: "migrate ?f ?d = ?out" by code_simp
  from h1 h2 h3 acts none out show ?thesis by blast
qed

section \<open>Registrations of replacements\<close>

text \<open>The pairs of section name and key of the \<open>KeyValue\<close> fragments, in order (the
  section name is that of the last header, empty before the first one), and the
  descriptions without ordered step lists.\<close>

fun section_keys :: "string \<Rightarrow> ConfigurationFragment list \<Rightarrow> (string \<times> string) list" where
  "section_keys cur [] = []"
| "section_keys cur (f # fs) =
     (if kind f = Section then section_keys (value1 f) fs
      else if kind f = KeyValue then (cur, value1 f) # section_keys cur fs
      else section_keys cur fs)"

definition no_order_lists :: "MigrationDescType \<Rightarrow> bool" where
  "no_order_lists migration_def =
     (\<forall>(name, order) \<in> set migration_def. case order of OrderList _ \<Rightarrow> False | _ \<Rightarrow> True)"

definition key_targets :: "ActionState \<Rightarrow> (string \<times> string) list" where
  "key_targets st =
     map (\<lambda>(s, k, _). (s, k)) (renamed_keys st) @ removed_keys st @
     map (\<lambda>(s, k, _). (s, k)) (moved_keys st)"

definition section_targets :: "ActionState \<Rightarrow> string list" where
  "section_targets st = removed_sections st @ map fst (renamed_sections st)"

lemma mset_subset_add_mset: "A \<subseteq># B \<Longrightarrow> A \<subseteq># add_mset x B"
  by (simp add: subseteq_mset_def le_SucI)

lemma distinct_mset_subset:
  assumes "mset xs \<subseteq># mset ys" and "distinct ys"
  shows "distinct xs"
proof -
  have "count (mset xs) a = (if a \<in> set xs then 1 else 0)" for a
  proof -
    from assms(2) have "count (mset ys) a \<le> 1"
      by (simp add: distinct_count_atmost_1)
    with mset_subset_eq_count [OF assms(1), of a] have le: "count (mset xs) a \<le> 1" by simp
    show ?thesis
    proof (cases "a \<in> set xs")
      case True
      then have "count (mset xs) a \<noteq> 0" by simp
      with le have "count (mset xs) a = 1" by arith
      with True show ?thesis by simp
    next
      case False
      then show ?thesis by simp
    qed
  qed
  then show ?thesis by (simp add: distinct_count_atmost_1)
qed

lemma last_header_Cons:
  "last_header (x # pre) =
     (case last_header pre of
        Some h \<Rightarrow> Some h
      | None \<Rightarrow> if kind x = Section then Some x else None)"
  by (cases "rev (filter (\<lambda>x. kind x = Section) pre)") (simp_all add: last_header_def)

lemma section_keys_snoc:
  "section_keys cur (pre @ [f]) =
     section_keys cur pre @
     (if kind f = KeyValue
      then [(case last_header pre of None \<Rightarrow> cur | Some h \<Rightarrow> value1 h, value1 f)] else [])"
proof (induction pre arbitrary: cur)
  case Nil
  show ?case by (simp add: last_header_def)
next
  case (Cons x pre)
  show ?case
    by (simp add: Cons last_header_Cons split: option.splits)
qed

lemma section_keys_written_snoc:
  "section_keys [] (pre @ [f]) =
     section_keys [] pre @ (if kind f = KeyValue then [(written_section pre, value1 f)] else [])"
  by (simp add: section_keys_snoc written_section_def)

lemma no_order_listsD:
  "no_order_lists md \<Longrightarrow> map_of md name \<noteq> Some (OrderList orders)"
  by (auto simp: no_order_lists_def dest!: map_of_SomeD)

text \<open>Without step lists the current section is the section as written.\<close>

lemma scan_sections_plain:
  assumes "no_order_lists md"
  shows "section (actions_scan md pre) = written_section pre"
    and "original_section (actions_scan md pre) = written_section pre"
proof -
  have "current_section md pre = written_section pre"
    using no_order_listsD [OF assms]
    by (auto simp: current_section_def written_section_def
        split: option.splits MigrationSectionOrderType.splits)
  then show "section (actions_scan md pre) = written_section pre"
    and "original_section (actions_scan md pre) = written_section pre"
    by (simp_all add: actions_scan_sections)
qed

subsection \<open>Effect of one step on the targets\<close>

lemma on_key_value_frame:
  "renamed_sections (on_key_value f st) = renamed_sections st"
  "removed_sections (on_key_value f st) = removed_sections st"
  "migration_key_desc (on_key_value f st) = migration_key_desc st"
  by (simp_all add: on_key_value_def split: option.splits MigrationKeyOrderType.splits prod.splits)

lemma on_key_value_targets:
  assumes "original_section st = section st"
  shows "key_targets (on_key_value f st) = key_targets st
       \<or> (migration_key_desc st \<noteq> None
          \<and> mset (key_targets (on_key_value f st)) =
              add_mset (section st, value1 f) (mset (key_targets st)))"
  using assms
  by (auto simp: on_key_value_def key_targets_def
      split: option.splits MigrationKeyOrderType.splits prod.splits)

lemma on_section_frame:
  "renamed_keys (on_section md f st) = renamed_keys st"
  "moved_keys (on_section md f st) = moved_keys st"
  "removed_keys (on_section md f st) = removed_keys st"
proof -
  have *: "renamed_keys (order_steps orders s) = renamed_keys s
     \<and> moved_keys (order_steps orders s) = moved_keys s
     \<and> removed_keys (order_steps orders s) = removed_keys s" for orders s
    by (induction orders s rule: order_steps.induct) simp_all
  show "renamed_keys (on_section md f st) = renamed_keys st"
    "moved_keys (on_section md f st) = moved_keys st"
    "removed_keys (on_section md f st) = removed_keys st"
    by (simp_all add: on_section_def Let_def *
        split: option.splits MigrationSectionOrderType.splits)
qed

lemma on_section_plain:
  assumes "no_order_lists md"
  shows "(removed_sections (on_section md f st) = removed_sections st
          \<and> renamed_sections (on_section md f st) = renamed_sections st
          \<and> (map_of md (value1 f) = None \<or> (\<exists>d. map_of md (value1 f) = Some (KeyOrders d))))
       \<or> (removed_sections (on_section md f st) = removed_sections st @ [value1 f]
          \<and> renamed_sections (on_section md f st) = renamed_sections st
          \<and> map_of md (value1 f) = Some RemoveSection)
       \<or> (\<exists>n. removed_sections (on_section md f st) = removed_sections st
          \<and> renamed_sections (on_section md f st) = renamed_sections st @ [(value1 f, n)]
          \<and> map_of md (value1 f) = Some (MoveSection n))"
  using no_order_listsD [OF assms, of "value1 f"]
  by (auto simp: on_section_def Let_def section_targets_def
      split: option.splits MigrationSectionOrderType.splits)

lemma on_section_key_desc:
  assumes "no_order_lists md"
  shows "migration_key_desc (on_section md f st) = Some d \<longleftrightarrow>
           map_of md (value1 f) = Some (KeyOrders d)"
  using no_order_listsD [OF assms, of "value1 f"]
  by (auto simp: on_section_def Let_def
      split: option.splits MigrationSectionOrderType.splits)


subsection \<open>Invariants of the scan without step lists\<close>

lemma scan_key_desc_plain:
  assumes "no_order_lists md"
  shows "migration_key_desc (actions_scan md pre) = Some d \<Longrightarrow>
         map_of md (written_section pre) = Some (KeyOrders d)"
proof (induction pre rule: rev_induct)
  case Nil
  then show ?case by (simp add: actions_scan_def initial_actions_def)
next
  case (snoc f pre)
  show ?case
  proof (cases "kind f = Section")
    case True
    with snoc.prems on_section_key_desc [OF assms] show ?thesis
      by (simp add: actions_scan_snoc actions_step_def written_section_snoc)
  next
    case False
    with snoc show ?thesis
      by (simp add: actions_scan_snoc actions_step_def written_section_snoc on_key_value_frame
          split: if_splits)
  qed
qed

lemma scan_key_targets_plain:
  assumes "no_order_lists md"
  shows "mset (key_targets (actions_scan md pre)) \<subseteq># mset (section_keys [] pre)"
proof (induction pre rule: rev_induct)
  case Nil
  show ?case by (simp add: actions_scan_def initial_actions_def key_targets_def)
next
  case (snoc f pre)
  let ?st = "actions_scan md pre"
  show ?case
  proof (cases "kind f = KeyValue")
    case True
    have eq: "original_section ?st = section ?st"
      by (simp add: scan_sections_plain [OF assms])
    from on_key_value_targets [OF eq, of f] snoc True show ?thesis
      by (auto simp: actions_scan_snoc actions_step_def section_keys_written_snoc
          scan_sections_plain [OF assms] mset_subset_add_mset)
  next
    case False
    have "key_targets (on_section md f ?st) = key_targets ?st"
      by (simp add: key_targets_def on_section_frame)
    with False snoc show ?thesis
      by (simp add: actions_scan_snoc actions_step_def section_keys_written_snoc)
  qed
qed

lemma scan_section_targets_plain:
  assumes "no_order_lists md"
  shows "mset (section_targets (actions_scan md pre)) \<subseteq># mset (header_names pre)"
proof (induction pre rule: rev_induct)
  case Nil
  show ?case by (simp add: actions_scan_def initial_actions_def section_targets_def)
next
  case (snoc f pre)
  let ?st = "actions_scan md pre"
  show ?case
  proof (cases "kind f = Section")
    case True
    from on_section_plain [OF assms, of f ?st] snoc True show ?thesis
      by (auto simp: actions_scan_snoc actions_step_def header_names_snoc section_targets_def
          mset_subset_add_mset)
  next
    case False
    have "section_targets (on_key_value f ?st) = section_targets ?st"
      by (simp add: section_targets_def on_key_value_frame)
    with False snoc show ?thesis
      by (simp add: actions_scan_snoc actions_step_def header_names_snoc)
  qed
qed

lemma scan_classes_plain:
  assumes "no_order_lists md"
  shows "(\<forall>t \<in> set (key_targets (actions_scan md pre)). \<exists>d. map_of md (fst t) = Some (KeyOrders d))
       \<and> (\<forall>s \<in> set (removed_sections (actions_scan md pre)). map_of md s = Some RemoveSection)
       \<and> (\<forall>p \<in> set (renamed_sections (actions_scan md pre)).
            \<exists>n. map_of md (fst p) = Some (MoveSection n))"
proof (induction pre rule: rev_induct)
  case Nil
  show ?case by (simp add: actions_scan_def initial_actions_def key_targets_def)
next
  case (snoc f pre)
  let ?st = "actions_scan md pre"
  show ?case
  proof (cases "kind f = KeyValue")
    case True
    have eq: "original_section ?st = section ?st"
      by (simp add: scan_sections_plain [OF assms])
    have keys: "\<exists>d. map_of md (fst t) = Some (KeyOrders d)"
      if "t \<in> set (key_targets (on_key_value f ?st))" for t
    proof -
      from on_key_value_targets [OF eq, of f]
      consider "key_targets (on_key_value f ?st) = key_targets ?st"
        | "migration_key_desc ?st \<noteq> None"
          "mset (key_targets (on_key_value f ?st)) =
             add_mset (section ?st, value1 f) (mset (key_targets ?st))"
        by blast
      then show ?thesis
      proof cases
        case 1
        with that snoc show ?thesis by simp
      next
        case 2
        from 2(2) have "set (key_targets (on_key_value f ?st)) =
            insert (section ?st, value1 f) (set (key_targets ?st))"
          by (metis set_mset_add_mset_insert set_mset_mset)
        with that consider "t = (section ?st, value1 f)" | "t \<in> set (key_targets ?st)"
          by blast
        then show ?thesis
        proof cases
          case 1
          from 2(1) obtain d where "migration_key_desc ?st = Some d" by blast
          from scan_key_desc_plain [OF assms this] 1 show ?thesis
            by (simp add: scan_sections_plain [OF assms])
        next
          case 2
          with snoc show ?thesis by simp
        qed
      qed
    qed
    with True snoc show ?thesis
      by (simp add: actions_scan_snoc actions_step_def on_key_value_frame)
  next
    case False
    note not_key = this
    have kt: "key_targets (on_section md f ?st) = key_targets ?st"
      by (simp add: key_targets_def on_section_frame)
    show ?thesis
    proof (cases "kind f = Section")
      case True
      from on_section_plain [OF assms, of f ?st] snoc True not_key kt show ?thesis
        by (auto simp: actions_scan_snoc actions_step_def section_targets_def)
    next
      case False
      with not_key snoc show ?thesis
        by (simp add: actions_scan_snoc actions_step_def)
    qed
  qed
qed

subsection \<open>Indices of the spans\<close>

lemma iter_from_spans_distinct:
  "sorted_wrt (\<lambda>x y. snd x < fst y) l \<Longrightarrow> distinct (iter_from_spans l)"
proof (induction l)
  case Nil
  show ?case by (simp add: iter_from_spans_def)
next
  case (Cons x l)
  obtain a b where x: "x = (a, b)" by (cases x)
  from Cons have "distinct (iter_from_spans l)" by simp
  moreover have "j \<notin> set (iter_from_spans l)" if "a \<le> j" "j < b" for j
  proof
    assume "j \<in> set (iter_from_spans l)"
    then obtain a' b' where "(a', b') \<in> set l" "a' \<le> j" "j < b'"
      by (auto simp: set_iter_from_spans)
    with Cons.prems x that show False by fastforce
  qed
  ultimately show ?case using x
    by (auto simp: iter_from_spans_def)
qed

lemma span_indices_distinct:
  "distinct (iter_from_spans (spans_of (fragments_to_spans_of_sections frs) name))"
  by (rule iter_from_spans_distinct) (rule spans_sorted)

lemma span_indices_cross:
  assumes "i \<in> set (iter_from_spans (spans_of (fragments_to_spans_of_sections frs) name))"
    and "i \<in> set (iter_from_spans (spans_of (fragments_to_spans_of_sections frs) name'))"
  shows "name = name'"
proof (rule ccontr)
  assume ne: "name \<noteq> name'"
  from assms(1) obtain a b
    where x: "(a, b) \<in> set (spans_of (fragments_to_spans_of_sections frs) name)" "a \<le> i" "i < b"
    by (auto simp: set_iter_from_spans)
  from assms(2) obtain a' b'
    where y: "(a', b') \<in> set (spans_of (fragments_to_spans_of_sections frs) name')" "a' \<le> i" "i < b'"
    by (auto simp: set_iter_from_spans)
  from spans_cross [OF x(1) y(1) ne] x(2,3) y(2,3) show False by auto
qed

lemma span_starts_distinct:
  "distinct (map fst (spans_of (fragments_to_spans_of_sections frs) name))"
proof -
  let ?l = "spans_of (fragments_to_spans_of_sections frs) name"
  have pos: "\<forall>x \<in> set ?l. fst x < snd x"
    using span_facts(1) [of _ _ frs name] by auto
  have "sorted_wrt (\<lambda>x y. snd x < fst y) l \<Longrightarrow> \<forall>x \<in> set l. fst x < snd x \<Longrightarrow>
      distinct (map fst l)" for l :: "span list"
    by (induction l) fastforce+
  from this [OF spans_sorted pos] show ?thesis .
qed

lemma span_start_in_indices:
  assumes "(a, b) \<in> set (spans_of (fragments_to_spans_of_sections frs) name)"
  shows "a \<in> set (iter_from_spans (spans_of (fragments_to_spans_of_sections frs) name))"
  using assms span_facts(1) [OF assms] by (auto simp: set_iter_from_spans)

lemma distinct_concat_map:
  assumes "distinct xs"
    and "\<And>x. x \<in> set xs \<Longrightarrow> distinct (F x)"
    and "\<And>x y. x \<in> set xs \<Longrightarrow> y \<in> set xs \<Longrightarrow> x \<noteq> y \<Longrightarrow> set (F x) \<inter> set (F y) = {}"
  shows "distinct (concat (map F xs))"
  using assms
proof (induction xs)
  case Nil
  show ?case by simp
next
  case (Cons x xs)
  have "distinct (concat (map F xs))"
    using Cons by simp
  moreover have "distinct (F x)" using Cons.prems(2) by simp
  moreover have "set (F x) \<inter> set (F y) = {}" if "y \<in> set xs" for y
    using Cons.prems(1) Cons.prems(3) [of x y] that by auto
  ultimately show ?case by auto
qed

subsection \<open>Targets of the registrations\<close>

text \<open>What an action rewrites: the fragments of a key in a section, the lines of a removed
  section, or the headers of a renamed section.\<close>

datatype target = KeyTarget string string | RemovedSection string | RenamedSection string

fun target_section :: "target \<Rightarrow> string" where
  "target_section (KeyTarget s k) = s"
| "target_section (RemovedSection s) = s"
| "target_section (RenamedSection s) = s"

fun target_indices :: "ConfigurationFragment list \<Rightarrow> section_spans \<Rightarrow> target \<Rightarrow> nat list" where
  "target_indices frs spans (KeyTarget s k) = map fst (iter_key_fragment frs spans s k)"
| "target_indices frs spans (RemovedSection s) =
     filter (\<lambda>i. kind (frs ! i) \<in> {KeyValue, Section}) (iter_from_spans (spans_of spans s))"
| "target_indices frs spans (RenamedSection s) = map fst (spans_of spans s)"

fun target_class :: "MigrationDescType \<Rightarrow> target \<Rightarrow> bool" where
  "target_class md (KeyTarget s k) = (\<exists>d. map_of md s = Some (KeyOrders d))"
| "target_class md (RemovedSection s) = (map_of md s = Some RemoveSection)"
| "target_class md (RenamedSection s) = (\<exists>n. map_of md s = Some (MoveSection n))"

definition all_targets ::
  "(string \<times> string) list \<Rightarrow> (string \<times> string \<times> string \<times> string) list \<Rightarrow>
   (string \<times> string \<times> string \<times> string \<times> string) list \<Rightarrow> string list \<Rightarrow> (string \<times> string) list \<Rightarrow>
   target list" where
  "all_targets rs rk mk rms rmk =
     map (\<lambda>(s, k, _). KeyTarget s k) rk @ map RemovedSection rms @
     map (\<lambda>(s, k). KeyTarget s k) (chain_removed_moved rmk mk) @
     map (\<lambda>(old, _). RenamedSection old) rs"

lemma map_fst_tagged: "map fst (map (\<lambda>(i, f). (i, g i f)) l) = map fst l"
  by (induction l) auto

lemma renamed_keys_indices:
  "map fst (renamed_keys_registrations frs spans rk) =
     concat (map (target_indices frs spans) (map (\<lambda>(s, k, _). KeyTarget s k) rk))"
proof (induction rk)
  case Nil
  show ?case by (simp add: renamed_keys_registrations_def)
next
  case (Cons x rk)
  obtain s k nk nv where x: "x = (s, k, nk, nv)" by (cases x)
  have "map fst (map (\<lambda>(i, fragment). (i, [comment_out fragment, newline_fragment,
            key_value_fragment nk nv])) (iter_key_fragment frs spans s k))
      = map fst (iter_key_fragment frs spans s k)"
    by (rule map_fst_tagged)
  with Cons x show ?case
    by (simp add: renamed_keys_registrations_def)
qed

lemma commented_keys_indices:
  "map fst (commented_keys_registrations frs spans ts) =
     concat (map (target_indices frs spans) (map (\<lambda>(s, k). KeyTarget s k) ts))"
proof (induction ts)
  case Nil
  show ?case by (simp add: commented_keys_registrations_def)
next
  case (Cons x ts)
  obtain s k where x: "x = (s, k)" by (cases x)
  have "map fst (map (\<lambda>(i, fragment). (i, [comment_out fragment])) (iter_key_fragment frs spans s k))
      = map fst (iter_key_fragment frs spans s k)"
    by (rule map_fst_tagged)
  with Cons x show ?case
    by (simp add: commented_keys_registrations_def)
qed

lemma removed_sections_indices:
  "map fst (removed_sections_registrations frs spans rms) =
     concat (map (target_indices frs spans) (map RemovedSection rms))"
  by (induction rms) (simp_all add: removed_sections_registrations_def comp_def)

lemma renamed_sections_indices:
  "map fst (renamed_sections_registrations frs spans rs) =
     concat (map (target_indices frs spans) (map (\<lambda>(old, _). RenamedSection old) rs))"
proof (induction rs)
  case Nil
  show ?case by (simp add: renamed_sections_registrations_def)
next
  case (Cons x rs)
  obtain old new where x: "x = (old, new)" by (cases x)
  have "map fst (map (\<lambda>(istart, _). (istart, [comment_out (frs ! istart), newline_fragment,
            section_fragment new])) l)
      = map fst l" for l :: "span list"
    by (induction l) auto
  with Cons x show ?case
    by (simp add: renamed_sections_registrations_def)
qed

lemma registration_indices:
  "map fst (registrations frs spans rs rk mk rms rmk) =
     concat (map (target_indices frs spans) (all_targets rs rk mk rms rmk))"
  by (simp add: registrations_def all_targets_def renamed_keys_indices commented_keys_indices
      removed_sections_indices renamed_sections_indices)


lemma target_indices_in_section:
  assumes "i \<in> set (target_indices frs (fragments_to_spans_of_sections frs) t)"
  shows "i \<in> set (iter_from_spans
                   (spans_of (fragments_to_spans_of_sections frs) (target_section t)))"
proof (cases t)
  case (KeyTarget s k)
  with assms show ?thesis by (auto simp: set_iter_key_fragment)
next
  case (RemovedSection s)
  with assms show ?thesis by simp
next
  case (RenamedSection s)
  with assms obtain b where "(i, b) \<in> set (spans_of (fragments_to_spans_of_sections frs) s)"
    by auto
  from span_start_in_indices [OF this] RenamedSection show ?thesis by simp
qed

lemma target_indices_distinct:
  "distinct (target_indices frs (fragments_to_spans_of_sections frs) t)"
proof (cases t)
  case (KeyTarget s k)
  have "map fst (iter_key_fragment frs spans s k) =
      filter (\<lambda>i. \<not> (kind (frs ! i) \<noteq> KeyValue \<or> k \<noteq> value1 (frs ! i)))
        (iter_from_spans (spans_of spans s))" for spans
    by (simp add: iter_key_fragment_def comp_def)
  with KeyTarget show ?thesis by (simp add: span_indices_distinct)
next
  case (RemovedSection s)
  then show ?thesis by (simp add: span_indices_distinct)
next
  case (RenamedSection s)
  then show ?thesis by (simp add: span_starts_distinct)
qed

text \<open>Two targets of one section whose rules are of the kinds the description gives that
  section, and that share an index, are one target.\<close>

lemma targets_share_index:
  assumes i: "i \<in> set (target_indices frs (fragments_to_spans_of_sections frs) t)"
    and i': "i \<in> set (target_indices frs (fragments_to_spans_of_sections frs) t')"
    and c: "target_class md t" and c': "target_class md t'"
  shows "t = t'"
proof -
  from span_indices_cross [OF target_indices_in_section [OF i] target_indices_in_section [OF i']]
  have sec: "target_section t = target_section t'" .
  show ?thesis
  proof (cases t)
    case t: (KeyTarget s k)
    with c c' sec obtain k' where t': "t' = KeyTarget s k'"
      by (cases t') auto
    from i t have "value1 (frs ! i) = k" by (auto simp: set_iter_key_fragment)
    moreover from i' t' have "value1 (frs ! i) = k'" by (auto simp: set_iter_key_fragment)
    ultimately show ?thesis using t t' by simp
  next
    case t: (RemovedSection s)
    with c c' sec show ?thesis by (cases t') auto
  next
    case t: (RenamedSection s)
    with c c' sec show ?thesis by (cases t') auto
  qed
qed

lemma all_targets_distinct:
  assumes "distinct (map (\<lambda>(s, k, _). (s, k)) rk @ rmk @ map (\<lambda>(s, k, _). (s, k)) mk)"
    and "distinct (rms @ map fst rs)"
  shows "distinct (all_targets rs rk mk rms rmk)"
proof -
  have key: "map (\<lambda>(s, k, _). KeyTarget s k) l = map (\<lambda>(s, k). KeyTarget s k) (map (\<lambda>(s, k, _). (s, k)) l)"
    for l :: "(string \<times> string \<times> 'a) list"
    by (induction l) auto
  have ren: "map (\<lambda>(old, _). RenamedSection old) rs = map RenamedSection (map fst rs)"
    by (induction rs) auto
  have inj: "inj_on (\<lambda>(s, k). KeyTarget s k) A" for A
    by (auto simp: inj_on_def)
  have chain: "chain_removed_moved rmk mk = rmk @ map (\<lambda>(s, k, _). (s, k)) mk"
    by (simp add: chain_removed_moved_def)
  from assms(1) have d1: "distinct (map (\<lambda>(s, k, _). (s, k)) rk)"
    and d2: "distinct (chain_removed_moved rmk mk)"
    and d3: "set (map (\<lambda>(s, k, _). (s, k)) rk) \<inter> set (chain_removed_moved rmk mk) = {}"
    unfolding chain by auto
  from assms(2) have d4: "distinct rms" and d5: "distinct (map fst rs)"
    and d6: "set rms \<inter> set (map fst rs) = {}"
    by auto
  have k1: "distinct (map (\<lambda>(s, k, _). KeyTarget s k) rk)"
    unfolding key [of rk] by (rule iffD2 [OF distinct_map]) (intro conjI d1 inj)
  have k2: "distinct (map (\<lambda>(s, k). KeyTarget s k) (chain_removed_moved rmk mk))"
    by (rule iffD2 [OF distinct_map]) (intro conjI d2 inj)
  have k3: "set (map (\<lambda>(s, k, _). KeyTarget s k) rk)
      \<inter> set (map (\<lambda>(s, k). KeyTarget s k) (chain_removed_moved rmk mk)) = {}"
    unfolding key [of rk] using d3 by auto
  have s1: "distinct (map RemovedSection rms)"
    using d4 by (simp add: distinct_map inj_on_def)
  have s2: "distinct (map (\<lambda>(old, _). RenamedSection old) rs)"
    unfolding ren using d5 by (simp add: distinct_map inj_on_def)
  from k1 k2 k3 s1 s2 show ?thesis
    unfolding all_targets_def by (auto simp: distinct_map)
qed

lemma all_targets_class:
  assumes keys: "\<forall>t \<in> set (map (\<lambda>(s, k, _). (s, k)) rk @ rmk @ map (\<lambda>(s, k, _). (s, k)) mk).
             \<exists>d. map_of md (fst t) = Some (KeyOrders d)"
    and rem: "\<forall>s \<in> set rms. map_of md s = Some RemoveSection"
    and ren: "\<forall>p \<in> set rs. \<exists>n. map_of md (fst p) = Some (MoveSection n)"
    and t: "t \<in> set (all_targets rs rk mk rms rmk)"
  shows "target_class md t"
proof -
  have K: "target_class md (KeyTarget s k)"
    if "(s, k) \<in> set (map (\<lambda>(s, k, _). (s, k)) rk @ rmk @ map (\<lambda>(s, k, _). (s, k)) mk)"
    for s k
    using bspec [OF keys that] by simp
  from t consider
      s k x where "t = KeyTarget s k" "(s, k, x) \<in> set rk"
    | s where "t = RemovedSection s" "s \<in> set rms"
    | s k where "t = KeyTarget s k" "(s, k) \<in> set rmk"
    | s k x where "t = KeyTarget s k" "(s, k, x) \<in> set mk"
    | s n where "t = RenamedSection s" "(s, n) \<in> set rs"
    unfolding all_targets_def chain_removed_moved_def by auto
  then show ?thesis
  proof cases
    case 1
    from 1(2) have "(s, k) \<in> set (map (\<lambda>(s, k, _). (s, k)) rk)" by force
    then show ?thesis unfolding 1(1) by (intro K) simp
  next
    case 2
    with rem show ?thesis by simp
  next
    case 3
    then show ?thesis by (simp only: K set_append UnI1 UnI2)
  next
    case 4
    from 4(2) have "(s, k) \<in> set (map (\<lambda>(s, k, _). (s, k)) mk)" by force
    then show ?thesis unfolding 4(1) by (intro K) simp
  next
    case 5
    from bspec [OF ren 5(2)] 5(1) show ?thesis by simp
  qed
qed


text \<open>
  Claim C6 (no double edit), as the code has it.  For every fragment sequence in which no
  two section headers have the same name and no two \<open>KeyValue\<close> fragments under the
  same section name have the same key, and for every migration description without
  ordered step lists, each fragment index is assigned a replacement at most once in one
  call of \<open>migrate\<close>, over all its rule kinds: the indices of the assignments to
  \<^verbatim>\<open>reinject_fragments\<close>, in the order of execution, are distinct.
\<close>

theorem no_double_edit:
  assumes headers: "distinct (header_names fragments)"
    and keys: "distinct (section_keys [] fragments)"
    and plain: "no_order_lists migration_def"
    and acts: "migration_def_to_actions fragments migration_def = (rs, rk, mk, rms, rmk)"
  shows "distinct (map fst (registrations fragments (fragments_to_spans_of_sections fragments)
                              rs rk mk rms rmk))"
proof -
  let ?st = "actions_scan migration_def fragments"
  let ?spans = "fragments_to_spans_of_sections fragments"
  from acts have lists: "rs = renamed_sections ?st" "rk = renamed_keys ?st" "mk = moved_keys ?st"
    "rms = removed_sections ?st" "rmk = removed_keys ?st"
    by (simp_all add: migration_def_to_actions_def action_lists_def)
  have kt: "key_targets ?st = map (\<lambda>(s, k, _). (s, k)) rk @ rmk @ map (\<lambda>(s, k, _). (s, k)) mk"
    by (simp add: key_targets_def lists)
  have st: "section_targets ?st = rms @ map fst rs"
    by (simp add: section_targets_def lists)
  have dk: "distinct (map (\<lambda>(s, k, _). (s, k)) rk @ rmk @ map (\<lambda>(s, k, _). (s, k)) mk)"
    using distinct_mset_subset [OF scan_key_targets_plain [OF plain] keys] by (simp only: kt)
  have ds: "distinct (rms @ map fst rs)"
    using distinct_mset_subset [OF scan_section_targets_plain [OF plain] headers]
    by (simp only: st)
  note classes = scan_classes_plain [OF plain, of fragments]
  have cls: "target_class migration_def t" if "t \<in> set (all_targets rs rk mk rms rmk)" for t
  proof (rule all_targets_class [OF _ _ _ that])
    show "\<forall>t \<in> set (map (\<lambda>(s, k, _). (s, k)) rk @ rmk @ map (\<lambda>(s, k, _). (s, k)) mk).
             \<exists>d. map_of migration_def (fst t) = Some (KeyOrders d)"
      using classes by (simp only: kt [symmetric]) blast
    show "\<forall>s \<in> set rms. map_of migration_def s = Some RemoveSection"
      using classes by (simp only: lists) blast
    show "\<forall>p \<in> set rs. \<exists>n. map_of migration_def (fst p) = Some (MoveSection n)"
      using classes by (simp only: lists) blast
  qed
  have "distinct (concat (map (target_indices fragments ?spans) (all_targets rs rk mk rms rmk)))"
  proof (rule distinct_concat_map)
    show "distinct (all_targets rs rk mk rms rmk)"
      by (rule all_targets_distinct [OF dk ds])
    show "distinct (target_indices fragments ?spans t)" for t
      by (rule target_indices_distinct)
    show "set (target_indices fragments ?spans t) \<inter> set (target_indices fragments ?spans t') = {}"
      if "t \<in> set (all_targets rs rk mk rms rmk)" "t' \<in> set (all_targets rs rk mk rms rmk)"
        "t \<noteq> t'" for t t'
      using targets_share_index [OF _ _ cls [OF that(1)] cls [OF that(2)]] that(3) by blast
  qed
  then show ?thesis by (simp only: registration_indices)
qed

text \<open>A section with two different keys, one renamed and one removed: each key is
  rewritten once.\<close>

theorem no_double_edit_witness:
  "distinct (header_names
     [\<lparr>text = ''[a]'', kind = Section, value1 = ''a'', value2 = []\<rparr>,
      newline_fragment,
      \<lparr>text = ''k=1'', kind = KeyValue, value1 = ''k'', value2 = ''1''\<rparr>,
      newline_fragment,
      \<lparr>text = ''m=2'', kind = KeyValue, value1 = ''m'', value2 = ''2''\<rparr>,
      newline_fragment,
      newline_fragment])
   \<and> distinct (section_keys []
     [\<lparr>text = ''[a]'', kind = Section, value1 = ''a'', value2 = []\<rparr>,
      newline_fragment,
      \<lparr>text = ''k=1'', kind = KeyValue, value1 = ''k'', value2 = ''1''\<rparr>,
      newline_fragment,
      \<lparr>text = ''m=2'', kind = KeyValue, value1 = ''m'', value2 = ''2''\<rparr>,
      newline_fragment,
      newline_fragment])
   \<and> no_order_lists
     [(''a'', KeyOrders [(''k'', UpdateItem None (Some ''j'') None), (''m'', RemoveItem)])]
   \<and> migration_def_to_actions
     [\<lparr>text = ''[a]'', kind = Section, value1 = ''a'', value2 = []\<rparr>,
      newline_fragment,
      \<lparr>text = ''k=1'', kind = KeyValue, value1 = ''k'', value2 = ''1''\<rparr>,
      newline_fragment,
      \<lparr>text = ''m=2'', kind = KeyValue, value1 = ''m'', value2 = ''2''\<rparr>,
      newline_fragment,
      newline_fragment]
     [(''a'', KeyOrders [(''k'', UpdateItem None (Some ''j'') None), (''m'', RemoveItem)])]
     = ([], [(''a'', ''k'', ''j'', ''1'')], [], [], [(''a'', ''m'')])
   \<and> map fst (registrations
     [\<lparr>text = ''[a]'', kind = Section, value1 = ''a'', value2 = []\<rparr>,
      newline_fragment,
      \<lparr>text = ''k=1'', kind = KeyValue, value1 = ''k'', value2 = ''1''\<rparr>,
      newline_fragment,
      \<lparr>text = ''m=2'', kind = KeyValue, value1 = ''m'', value2 = ''2''\<rparr>,
      newline_fragment,
      newline_fragment]
     (fragments_to_spans_of_sections
        [\<lparr>text = ''[a]'', kind = Section, value1 = ''a'', value2 = []\<rparr>,
         newline_fragment,
         \<lparr>text = ''k=1'', kind = KeyValue, value1 = ''k'', value2 = ''1''\<rparr>,
         newline_fragment,
         \<lparr>text = ''m=2'', kind = KeyValue, value1 = ''m'', value2 = ''2''\<rparr>,
         newline_fragment,
         newline_fragment])
     [] [(''a'', ''k'', ''j'', ''1'')] [] [] [(''a'', ''m'')]) = [2, 4]
   \<and> distinct (map fst (registrations
     [\<lparr>text = ''[a]'', kind = Section, value1 = ''a'', value2 = []\<rparr>,
      newline_fragment,
      \<lparr>text = ''k=1'', kind = KeyValue, value1 = ''k'', value2 = ''1''\<rparr>,
      newline_fragment,
      \<lparr>text = ''m=2'', kind = KeyValue, value1 = ''m'', value2 = ''2''\<rparr>,
      newline_fragment,
      newline_fragment]
     (fragments_to_spans_of_sections
        [\<lparr>text = ''[a]'', kind = Section, value1 = ''a'', value2 = []\<rparr>,
         newline_fragment,
         \<lparr>text = ''k=1'', kind = KeyValue, value1 = ''k'', value2 = ''1''\<rparr>,
         newline_fragment,
         \<lparr>text = ''m=2'', kind = KeyValue, value1 = ''m'', value2 = ''2''\<rparr>,
         newline_fragment,
         newline_fragment])
     [] [(''a'', ''k'', ''j'', ''1'')] [] [] [(''a'', ''m'')]))"
  (is "distinct (header_names ?f) \<and> _ \<and> no_order_lists ?d \<and> _ \<and> _ \<and> _")
proof -
  have h1: "distinct (header_names ?f)" by code_simp
  have h2: "distinct (section_keys [] ?f)" by code_simp
  have h3: "no_order_lists ?d" by code_simp
  have acts: "migration_def_to_actions ?f ?d =
      ([], [(''a'', ''k'', ''j'', ''1'')], [], [], [(''a'', ''m'')])"
    by code_simp
  have ix: "map fst (registrations ?f (fragments_to_spans_of_sections ?f)
      [] [(''a'', ''k'', ''j'', ''1'')] [] [] [(''a'', ''m'')]) = [2, 4]"
    by code_simp
  from no_double_edit [OF h1 h2 h3 acts] h1 h2 h3 acts ix show ?thesis by blast
qed

text \<open>
  Claim C6 as stated fails where a key occurs twice in a section.  For the section \<open>a\<close>
  with the lines \<^verbatim>\<open>k=1\<close> and \<^verbatim>\<open>k=2\<close> and the rule that renames \<open>k\<close> to \<open>j\<close>, the scan
  records two rename-key actions, each of them is registered at both lines, and the
  second registration overwrites the first: the indices 2 and 4 are assigned twice, and
  both lines become \<^verbatim>\<open>j=2\<close>.
\<close>

theorem double_edit_counterexample:
  "migration_def_to_actions
     [\<lparr>text = ''[a]'', kind = Section, value1 = ''a'', value2 = []\<rparr>,
      newline_fragment,
      \<lparr>text = ''k=1'', kind = KeyValue, value1 = ''k'', value2 = ''1''\<rparr>,
      newline_fragment,
      \<lparr>text = ''k=2'', kind = KeyValue, value1 = ''k'', value2 = ''2''\<rparr>,
      newline_fragment,
      newline_fragment]
     [(''a'', KeyOrders [(''k'', UpdateItem None (Some ''j'') None)])]
     = ([], [(''a'', ''k'', ''j'', ''1''), (''a'', ''k'', ''j'', ''2'')], [], [], [])
   \<and> map fst (registrations
     [\<lparr>text = ''[a]'', kind = Section, value1 = ''a'', value2 = []\<rparr>,
      newline_fragment,
      \<lparr>text = ''k=1'', kind = KeyValue, value1 = ''k'', value2 = ''1''\<rparr>,
      newline_fragment,
      \<lparr>text = ''k=2'', kind = KeyValue, value1 = ''k'', value2 = ''2''\<rparr>,
      newline_fragment,
      newline_fragment]
     (fragments_to_spans_of_sections
        [\<lparr>text = ''[a]'', kind = Section, value1 = ''a'', value2 = []\<rparr>,
         newline_fragment,
         \<lparr>text = ''k=1'', kind = KeyValue, value1 = ''k'', value2 = ''1''\<rparr>,
         newline_fragment,
         \<lparr>text = ''k=2'', kind = KeyValue, value1 = ''k'', value2 = ''2''\<rparr>,
         newline_fragment,
         newline_fragment])
     [] [(''a'', ''k'', ''j'', ''1''), (''a'', ''k'', ''j'', ''2'')] [] [] []) = [2, 4, 2, 4]
   \<and> migrate
     [\<lparr>text = ''[a]'', kind = Section, value1 = ''a'', value2 = []\<rparr>,
      newline_fragment,
      \<lparr>text = ''k=1'', kind = KeyValue, value1 = ''k'', value2 = ''1''\<rparr>,
      newline_fragment,
      \<lparr>text = ''k=2'', kind = KeyValue, value1 = ''k'', value2 = ''2''\<rparr>,
      newline_fragment,
      newline_fragment]
     [(''a'', KeyOrders [(''k'', UpdateItem None (Some ''j'') None)])]
     = (True,
        [\<lparr>text = ''[a]'', kind = Section, value1 = ''a'', value2 = []\<rparr>,
         newline_fragment,
         \<lparr>text = ''#k=1'', kind = Comment, value1 = [], value2 = []\<rparr>,
         newline_fragment,
         \<lparr>text = ''j=2'', kind = KeyValue, value1 = ''j'', value2 = ''2''\<rparr>,
         newline_fragment,
         \<lparr>text = ''#k=2'', kind = Comment, value1 = [], value2 = []\<rparr>,
         newline_fragment,
         \<lparr>text = ''j=2'', kind = KeyValue, value1 = ''j'', value2 = ''2''\<rparr>,
         newline_fragment,
         newline_fragment])"
  by code_simp

text \<open>The other two conditions are needed as well.  A section name on two headers, with
  the section removed: each header is registered twice.\<close>

lemma double_edit_of_repeated_header:
  "section_keys []
     [\<lparr>text = ''[a]'', kind = Section, value1 = ''a'', value2 = []\<rparr>,
      newline_fragment, newline_fragment,
      \<lparr>text = ''[a]'', kind = Section, value1 = ''a'', value2 = []\<rparr>,
      newline_fragment, newline_fragment, newline_fragment] = []
   \<and> migration_def_to_actions
     [\<lparr>text = ''[a]'', kind = Section, value1 = ''a'', value2 = []\<rparr>,
      newline_fragment, newline_fragment,
      \<lparr>text = ''[a]'', kind = Section, value1 = ''a'', value2 = []\<rparr>,
      newline_fragment, newline_fragment, newline_fragment]
     [(''a'', RemoveSection)] = ([], [], [], [''a'', ''a''], [])
   \<and> map fst (registrations
     [\<lparr>text = ''[a]'', kind = Section, value1 = ''a'', value2 = []\<rparr>,
      newline_fragment, newline_fragment,
      \<lparr>text = ''[a]'', kind = Section, value1 = ''a'', value2 = []\<rparr>,
      newline_fragment, newline_fragment, newline_fragment]
     (fragments_to_spans_of_sections
        [\<lparr>text = ''[a]'', kind = Section, value1 = ''a'', value2 = []\<rparr>,
         newline_fragment, newline_fragment,
         \<lparr>text = ''[a]'', kind = Section, value1 = ''a'', value2 = []\<rparr>,
         newline_fragment, newline_fragment, newline_fragment])
     [] [] [] [''a'', ''a''] []) = [0, 3, 0, 3]"
  by code_simp

text \<open>A step list that renames \<open>a\<close> to \<open>b\<close> and then removes the key \<open>k\<close>: the removal is
  recorded under the new name \<open>b\<close>, and it meets the renaming of \<open>k\<close> in the section
  \<open>b\<close> of the file at index 6.\<close>

lemma double_edit_of_step_list:
  "header_names
     [\<lparr>text = ''[a]'', kind = Section, value1 = ''a'', value2 = []\<rparr>,
      newline_fragment,
      \<lparr>text = ''k=1'', kind = KeyValue, value1 = ''k'', value2 = ''1''\<rparr>,
      newline_fragment,
      \<lparr>text = ''[b]'', kind = Section, value1 = ''b'', value2 = []\<rparr>,
      newline_fragment,
      \<lparr>text = ''k=2'', kind = KeyValue, value1 = ''k'', value2 = ''2''\<rparr>,
      newline_fragment, newline_fragment] = [''a'', ''b'']
   \<and> section_keys []
     [\<lparr>text = ''[a]'', kind = Section, value1 = ''a'', value2 = []\<rparr>,
      newline_fragment,
      \<lparr>text = ''k=1'', kind = KeyValue, value1 = ''k'', value2 = ''1''\<rparr>,
      newline_fragment,
      \<lparr>text = ''[b]'', kind = Section, value1 = ''b'', value2 = []\<rparr>,
      newline_fragment,
      \<lparr>text = ''k=2'', kind = KeyValue, value1 = ''k'', value2 = ''2''\<rparr>,
      newline_fragment, newline_fragment] = [(''a'', ''k''), (''b'', ''k'')]
   \<and> migration_def_to_actions
     [\<lparr>text = ''[a]'', kind = Section, value1 = ''a'', value2 = []\<rparr>,
      newline_fragment,
      \<lparr>text = ''k=1'', kind = KeyValue, value1 = ''k'', value2 = ''1''\<rparr>,
      newline_fragment,
      \<lparr>text = ''[b]'', kind = Section, value1 = ''b'', value2 = []\<rparr>,
      newline_fragment,
      \<lparr>text = ''k=2'', kind = KeyValue, value1 = ''k'', value2 = ''2''\<rparr>,
      newline_fragment, newline_fragment]
     [(''a'', OrderList [StepMoveSection ''b'', StepKeyOrders [(''k'', RemoveItem)]]),
      (''b'', KeyOrders [(''k'', UpdateItem None (Some ''j'') None)])]
     = ([(''a'', ''b'')], [(''b'', ''k'', ''j'', ''2'')], [], [], [(''b'', ''k'')])
   \<and> map fst (registrations
     [\<lparr>text = ''[a]'', kind = Section, value1 = ''a'', value2 = []\<rparr>,
      newline_fragment,
      \<lparr>text = ''k=1'', kind = KeyValue, value1 = ''k'', value2 = ''1''\<rparr>,
      newline_fragment,
      \<lparr>text = ''[b]'', kind = Section, value1 = ''b'', value2 = []\<rparr>,
      newline_fragment,
      \<lparr>text = ''k=2'', kind = KeyValue, value1 = ''k'', value2 = ''2''\<rparr>,
      newline_fragment, newline_fragment]
     (fragments_to_spans_of_sections
        [\<lparr>text = ''[a]'', kind = Section, value1 = ''a'', value2 = []\<rparr>,
         newline_fragment,
         \<lparr>text = ''k=1'', kind = KeyValue, value1 = ''k'', value2 = ''1''\<rparr>,
         newline_fragment,
         \<lparr>text = ''[b]'', kind = Section, value1 = ''b'', value2 = []\<rparr>,
         newline_fragment,
         \<lparr>text = ''k=2'', kind = KeyValue, value1 = ''k'', value2 = ''2''\<rparr>,
         newline_fragment, newline_fragment])
     [(''a'', ''b'')] [(''b'', ''k'', ''j'', ''2'')] [] [] [(''b'', ''k'')]) = [6, 6, 0]"
  by code_simp

end
